theory Spec2Isabelle
  imports Main "HOL-Library.Stream" "HOL-Library.Sublist"
begin


section \<open>Tokens, token sources and the stream state\<close>

text \<open>
  The attributes of a token that \<^verbatim>\<open>CommonTokenStream\<close> reads or writes. The fields carry the
  names of the Go accessors. A token source hands out a fresh token object on every call of
  \<^verbatim>\<open>NextToken\<close>, so tokens are values here: \<^verbatim>\<open>SetTokenIndex\<close> on the token just fetched
  touches no token that is already buffered.
\<close>

record token =
  GetTokenType :: int
  GetChannel :: int
  GetText :: string
  GetTokenIndex :: int

text \<open>
  The two constants of package \<^verbatim>\<open>antlr\<close> the stream uses; they are declared in the
  package's token and lexer files (\<^verbatim>\<open>TokenEOF = -1\<close>, \<^verbatim>\<open>LexerDefaultTokenChannel = 0\<close>).
  No proof below depends on their values, only the evaluation of the examples.
\<close>

definition TokenEOF :: int where
  "TokenEOF = - 1"

definition LexerDefaultTokenChannel :: int where
  "LexerDefaultTokenChannel = 0"

text \<open>
  \<^verbatim>\<open>TokenSource\<close> is an interface; all the stream does with it is call \<^verbatim>\<open>NextToken\<close>.
  A source is therefore the infinite sequence of the tokens its successive calls return:
  \<^verbatim>\<open>NextToken\<close> takes the head and leaves the tail. Go's \<^verbatim>\<open>int\<close> is modelled by
  \<^typ>\<open>int\<close>; no index of a buffer that fits in memory reaches the 64-bit bound. The debug
  output under \<^verbatim>\<open>PortDebug\<close> touches no state and is left out.
\<close>

record CommonTokenStream =
  tokenSource :: "token stream"
  tokens :: "token list"
  index :: int
  fetchedEOF :: bool
  channel :: int

definition NewCommonTokenStream :: "token stream \<Rightarrow> int \<Rightarrow> CommonTokenStream" where
  "NewCommonTokenStream lexer ch =
     \<lparr>tokenSource = lexer, tokens = [], index = - 1, fetchedEOF = False, channel = ch\<rparr>"

text \<open>
  What a call can do besides returning: panic (the explicit \<^verbatim>\<open>panic\<close> calls, Go's
  bounds check on \<^verbatim>\<open>c.tokens[i]\<close>, a method call on a nil token) or run forever (a source that
  never produces what a scan looks for). A panic keeps the state reached so far, since the
  caller may recover and go on using the stream. \<open>None\<close> is a call that does not return.
\<close>

datatype error = CannotConsumeEOF | IndexOutOfRange | NotInRange int int | NilDereference

datatype 'a outcome = Return 'a CommonTokenStream | Panic error CommonTokenStream

fun stateOf :: "'a outcome \<Rightarrow> CommonTokenStream" where
  "stateOf (Return v c) = c"
| "stateOf (Panic e c) = c"

definition bnd :: "'a outcome option \<Rightarrow> ('a \<Rightarrow> CommonTokenStream \<Rightarrow> 'b outcome option)
    \<Rightarrow> 'b outcome option" where
  "bnd m f = (case m of
       None \<Rightarrow> None
     | Some (Panic e c) \<Rightarrow> Some (Panic e c)
     | Some (Return v c) \<Rightarrow> f v c)"

definition lift :: "error + 'a \<Rightarrow> CommonTokenStream \<Rightarrow> 'a outcome option" where
  "lift r c = (case r of Inl e \<Rightarrow> Some (Panic e c) | Inr v \<Rightarrow> Some (Return v c))"

definition Size :: "CommonTokenStream \<Rightarrow> int" where
  "Size c = int (length (tokens c))"

definition Index :: "CommonTokenStream \<Rightarrow> int" where
  "Index c = index c"

text \<open>The indexed read \<^verbatim>\<open>c.tokens[i]\<close>: Go panics outside \<open>0 \<le> i < len\<close>.\<close>

definition tokenAt :: "CommonTokenStream \<Rightarrow> int \<Rightarrow> error + token" where
  "tokenAt c i = (if 0 \<le> i \<and> i < Size c then Inr (tokens c ! nat i) else Inl IndexOutOfRange)"

section \<open>Lazy fetch and buffer growth\<close>

function fetch_loop :: "int \<Rightarrow> int \<Rightarrow> CommonTokenStream \<Rightarrow> int \<times> CommonTokenStream" where
  "fetch_loop n i c =
     (if i < n then
        (let t = shd (tokenSource c);
             c1 = c\<lparr>tokenSource := stl (tokenSource c)\<rparr>;
             t' = t\<lparr>GetTokenIndex := int (length (tokens c1))\<rparr>;
             c2 = c1\<lparr>tokens := tokens c1 @ [t']\<rparr>
         in if GetTokenType t' = TokenEOF then (i + 1, c2\<lparr>fetchedEOF := True\<rparr>)
            else fetch_loop n (i + 1) c2)
      else (n, c))"
  by pat_completeness auto
termination
  by (relation "measure (\<lambda>(n, i, c). nat (n - i))") auto

declare fetch_loop.simps [simp del]

definition fetch :: "int \<Rightarrow> CommonTokenStream \<Rightarrow> int \<times> CommonTokenStream" where
  "fetch n c = (if fetchedEOF c then (0, c) else fetch_loop n 0 c)"

definition Sync :: "int \<Rightarrow> CommonTokenStream \<Rightarrow> bool \<times> CommonTokenStream" where
  "Sync i c =
     (let n = i - int (length (tokens c)) + 1
      in if n > 0 then (let r = fetch n c in (fst r \<ge> n, snd r)) else (True, c))"

section \<open>Channel-aware navigation\<close>

text \<open>
  The loop of \<^verbatim>\<open>NextTokenOnChannel\<close>, entered at the read \<^verbatim>\<open>c.tokens[i]\<close> that precedes each
  test of the loop condition. The \<^verbatim>\<open>channel\<close> parameter of the Go function is never read:
  the scan compares with the stream's own channel.
\<close>

partial_function (option) ntoc_loop :: "CommonTokenStream \<Rightarrow> int \<Rightarrow> int outcome option" where
  "ntoc_loop c i =
     (case tokenAt c i of
        Inl e \<Rightarrow> Some (Panic e c)
      | Inr token \<Rightarrow>
          if GetChannel token \<noteq> channel c then
            (if GetTokenType token = TokenEOF then Some (Return (- 1) c)
             else ntoc_loop (snd (Sync (i + 1) c)) (i + 1))
          else Some (Return i c))"

definition NextTokenOnChannel :: "int \<Rightarrow> int \<Rightarrow> CommonTokenStream \<Rightarrow> int outcome option" where
  "NextTokenOnChannel i ch c =
     (let c1 = snd (Sync i c)
      in if i \<ge> int (length (tokens c1)) then Some (Return (- 1) c1) else ntoc_loop c1 i)"

function previousTokenOnChannel :: "int \<Rightarrow> int \<Rightarrow> CommonTokenStream \<Rightarrow> error + int" where
  "previousTokenOnChannel i ch c =
     (if i \<ge> 0 then
        (case tokenAt c i of
           Inl e \<Rightarrow> Inl e
         | Inr t \<Rightarrow> if GetChannel t \<noteq> ch then previousTokenOnChannel (i - 1) ch c else Inr i)
      else Inr i)"
  by pat_completeness auto
termination
  by (relation "measure (\<lambda>(i, ch, c). nat (i + 1))") auto

declare previousTokenOnChannel.simps [simp del]

definition adjustSeekIndex :: "int \<Rightarrow> CommonTokenStream \<Rightarrow> int outcome option" where
  "adjustSeekIndex i c = NextTokenOnChannel i (channel c) c"

text \<open>The method \<^verbatim>\<open>setup\<close> of the stream (the bare name is reserved in theory text).\<close>

definition setupStream :: "CommonTokenStream \<Rightarrow> unit outcome option" where
  "setupStream c =
     (let c1 = snd (Sync 0 c)
      in bnd (adjustSeekIndex 0 c1) (\<lambda>r c2. Some (Return () (c2\<lparr>index := r\<rparr>))))"

definition lazyInit :: "CommonTokenStream \<Rightarrow> unit outcome option" where
  "lazyInit c = (if index c = - 1 then setupStream c else Some (Return () c))"

definition Seek :: "int \<Rightarrow> CommonTokenStream \<Rightarrow> unit outcome option" where
  "Seek i c =
     bnd (lazyInit c) (\<lambda>_ c1.
     bnd (adjustSeekIndex i c1) (\<lambda>r c2. Some (Return () (c2\<lparr>index := r\<rparr>))))"

definition reset :: "CommonTokenStream \<Rightarrow> unit outcome option" where
  "reset c = Seek 0 c"

definition Get :: "int \<Rightarrow> CommonTokenStream \<Rightarrow> token outcome option" where
  "Get i c = bnd (lazyInit c) (\<lambda>_ c1. lift (tokenAt c1 i) c1)"

function LB_loop :: "int \<Rightarrow> int \<Rightarrow> int \<Rightarrow> CommonTokenStream \<Rightarrow> error + int" where
  "LB_loop k n i c =
     (if n \<le> k then
        (case previousTokenOnChannel (i - 1) (channel c) c of
           Inl e \<Rightarrow> Inl e
         | Inr i' \<Rightarrow> LB_loop k (n + 1) i' c)
      else Inr i)"
  by pat_completeness auto
termination
  by (relation "measure (\<lambda>(k, n, i, c). nat (k + 1 - n))") auto

declare LB_loop.simps [simp del]

text \<open>A \<^verbatim>\<open>Token\<close> is an interface value and may be nil: \<open>None\<close>.\<close>

definition LB :: "int \<Rightarrow> CommonTokenStream \<Rightarrow> token option outcome option" where
  "LB k c =
     (if k = 0 \<or> index c - k < 0 then Some (Return None c)
      else (case LB_loop k 1 (index c) c of
              Inl e \<Rightarrow> Some (Panic e c)
            | Inr i \<Rightarrow>
                if i < 0 then Some (Return None c)
                else bnd (lift (tokenAt c i) c) (\<lambda>t c'. Some (Return (Some t) c'))))"

function LT_loop :: "int \<Rightarrow> int \<Rightarrow> int \<Rightarrow> CommonTokenStream \<Rightarrow> int outcome option" where
  "LT_loop k n i c =
     (if n < k then
        (if fst (Sync (i + 1) c)
         then bnd (NextTokenOnChannel (i + 1) (channel c) (snd (Sync (i + 1) c)))
                (\<lambda>i' c'. LT_loop k (n + 1) i' c')
         else LT_loop k (n + 1) i (snd (Sync (i + 1) c)))
      else Some (Return i c))"
  by pat_completeness auto
termination
  by (relation "measure (\<lambda>(k, n, i, c). nat (k - n))") auto

declare LT_loop.simps [simp del]

definition LT :: "int \<Rightarrow> CommonTokenStream \<Rightarrow> token option outcome option" where
  "LT k c =
     bnd (lazyInit c) (\<lambda>_ c1.
       if k = 0 then Some (Return None c1)
       else if k < 0 then LB (- k) c1
       else bnd (LT_loop k 1 (index c1) c1) (\<lambda>i c2.
              bnd (lift (tokenAt c2 i) c2) (\<lambda>t c3. Some (Return (Some t) c3))))"

definition LA :: "int \<Rightarrow> CommonTokenStream \<Rightarrow> int outcome option" where
  "LA i c =
     bnd (LT i c) (\<lambda>t c1.
       case t of None \<Rightarrow> Some (Panic NilDereference c1)
               | Some tok \<Rightarrow> Some (Return (GetTokenType tok) c1))"

definition Consume :: "CommonTokenStream \<Rightarrow> unit outcome option" where
  "Consume c =
     (let SkipEofCheck =
            (if index c \<ge> 0 then
               (if fetchedEOF c then index c < int (length (tokens c)) - 1
                else index c < int (length (tokens c)))
             else False)
      in bnd (if \<not> SkipEofCheck
              then bnd (LA 1 c) (\<lambda>la c1.
                     if la = TokenEOF then Some (Panic CannotConsumeEOF c1)
                     else Some (Return () c1))
              else Some (Return () c))
           (\<lambda>_ c1.
              if fst (Sync (index c1 + 1) c1)
              then bnd (adjustSeekIndex (index c1 + 1) (snd (Sync (index c1 + 1) c1)))
                     (\<lambda>r c3. Some (Return () (c3\<lparr>index := r\<rparr>)))
              else Some (Return () (snd (Sync (index c1 + 1) c1)))))"

section \<open>Filling the buffer and rebinding the source\<close>

partial_function (option) fill_loop :: "CommonTokenStream \<Rightarrow> CommonTokenStream option" where
  "fill_loop c =
     (if fst (fetch 1000 c) = 1000 then fill_loop (snd (fetch 1000 c))
      else Some (snd (fetch 1000 c)))"

definition Fill :: "CommonTokenStream \<Rightarrow> unit outcome option" where
  "Fill c =
     bnd (lazyInit c) (\<lambda>_ c1.
       case fill_loop c1 of None \<Rightarrow> None | Some c2 \<Rightarrow> Some (Return () c2))"

definition SetTokenSource :: "token stream \<Rightarrow> CommonTokenStream \<Rightarrow> CommonTokenStream" where
  "SetTokenSource src c = c\<lparr>tokenSource := src, tokens := [], index := - 1\<rparr>"

section \<open>Hidden-token retrieval\<close>

function filter_loop ::
    "int \<Rightarrow> int \<Rightarrow> int \<Rightarrow> token list \<Rightarrow> CommonTokenStream \<Rightarrow> error + token list" where
  "filter_loop i right ch hidden c =
     (if i < right + 1 then
        (case tokenAt c i of
           Inl e \<Rightarrow> Inl e
         | Inr t \<Rightarrow>
             filter_loop (i + 1) right ch
               (if ch = - 1 then
                  (if GetChannel t \<noteq> LexerDefaultTokenChannel then hidden @ [t] else hidden)
                else if GetChannel t = ch then hidden @ [t]
                else hidden) c)
      else Inr hidden)"
  by pat_completeness auto
termination
  by (relation "measure (\<lambda>(i, right, ch, hidden, c). nat (right + 1 - i))") auto

declare filter_loop.simps [simp del]

text \<open>A Go slice may be nil: \<open>None\<close>.\<close>

definition filterForChannel ::
    "int \<Rightarrow> int \<Rightarrow> int \<Rightarrow> CommonTokenStream \<Rightarrow> error + token list option" where
  "filterForChannel left right ch c =
     (case filter_loop left right ch [] c of
        Inl e \<Rightarrow> Inl e
      | Inr hidden \<Rightarrow> Inr (if length hidden = 0 then None else Some hidden))"

definition getHiddenTokensToRight ::
    "int \<Rightarrow> int \<Rightarrow> CommonTokenStream \<Rightarrow> token list option outcome option" where
  "getHiddenTokensToRight tokenIndex ch c =
     bnd (lazyInit c) (\<lambda>_ c1.
       if tokenIndex < 0 \<or> tokenIndex \<ge> int (length (tokens c1))
       then Some (Panic (NotInRange tokenIndex (int (length (tokens c1)) - 1)) c1)
       else bnd (NextTokenOnChannel (tokenIndex + 1) LexerDefaultTokenChannel c1)
              (\<lambda>nextOnChannel c2.
                 let from = tokenIndex + 1;
                     to = (if nextOnChannel = - 1 then int (length (tokens c2)) - 1
                           else nextOnChannel)
                 in lift (filterForChannel from to ch c2) c2))"

definition getHiddenTokensToLeft ::
    "int \<Rightarrow> int \<Rightarrow> CommonTokenStream \<Rightarrow> token list option outcome option" where
  "getHiddenTokensToLeft tokenIndex ch c =
     bnd (lazyInit c) (\<lambda>_ c1.
       if tokenIndex < 0 \<or> tokenIndex \<ge> int (length (tokens c1))
       then Some (Panic (NotInRange tokenIndex (int (length (tokens c1)) - 1)) c1)
       else (case previousTokenOnChannel (tokenIndex - 1) LexerDefaultTokenChannel c1 of
               Inl e \<Rightarrow> Some (Panic e c1)
             | Inr prevOnChannel \<Rightarrow>
                 if prevOnChannel = tokenIndex - 1 then Some (Return None c1)
                 else lift (filterForChannel (prevOnChannel + 1) (tokenIndex - 1) ch c1) c1))"

section \<open>Text reconstruction\<close>

function text_loop :: "int \<Rightarrow> int \<Rightarrow> string \<Rightarrow> CommonTokenStream \<Rightarrow> error + string" where
  "text_loop i stop s c =
     (if i < stop + 1 then
        (case tokenAt c i of
           Inl e \<Rightarrow> Inl e
         | Inr t \<Rightarrow>
             if GetTokenType t = TokenEOF then Inr s
             else text_loop (i + 1) stop (s @ GetText t) c)
      else Inr s)"
  by pat_completeness auto
termination
  by (relation "measure (\<lambda>(i, stop, s, c). nat (stop + 1 - i))") auto

declare text_loop.simps [simp del]

text \<open>
  The argument is a pointer to an \<^verbatim>\<open>Interval\<close>, a struct of the two fields \<^verbatim>\<open>start\<close> and
  \<^verbatim>\<open>stop\<close>: a pair here, \<open>None\<close> for the nil pointer.
\<close>

definition GetTextFromInterval ::
    "(int \<times> int) option \<Rightarrow> CommonTokenStream \<Rightarrow> string outcome option" where
  "GetTextFromInterval interval c =
     bnd (lazyInit c) (\<lambda>_ c1.
     bnd (Fill c1) (\<lambda>_ c2.
       let iv = (case interval of
                   None \<Rightarrow> (0, int (length (tokens c2)) - 1)
                 | Some p \<Rightarrow> p);
           start = fst iv;
           stop = snd iv
       in if start < 0 \<or> stop < 0 then Some (Return [] c2)
          else lift (text_loop start
                       (if stop \<ge> int (length (tokens c2)) then int (length (tokens c2)) - 1
                        else stop) [] c2) c2))"

definition GetAllText :: "CommonTokenStream \<Rightarrow> string outcome option" where
  "GetAllText c = GetTextFromInterval None c"

section \<open>Sequences of calls\<close>

text \<open>
  The calls a client (or the stream itself) can make that touch the buffer, and the state a
  sequence of them leaves behind. The state after a panic is the state at the panic;
  \<open>None\<close> is a sequence with a call that does not return.
\<close>

datatype operation =
    OpFetch int | OpSync int | OpFill | OpLazyInit | OpSeek int | OpReset | OpGet int
  | OpConsume | OpLT int | OpLA int | OpLB int | OpNextTokenOnChannel int int
  | OpAdjustSeekIndex int | OpHiddenToRight int int | OpHiddenToLeft int int
  | OpGetText "(int \<times> int) option"

definition after :: "'a outcome option \<Rightarrow> CommonTokenStream option" where
  "after m = map_option stateOf m"

fun perform :: "operation \<Rightarrow> CommonTokenStream \<Rightarrow> CommonTokenStream option" where
  "perform (OpFetch n) c = Some (snd (fetch n c))"
| "perform (OpSync i) c = Some (snd (Sync i c))"
| "perform OpFill c = after (Fill c)"
| "perform OpLazyInit c = after (lazyInit c)"
| "perform (OpSeek i) c = after (Seek i c)"
| "perform OpReset c = after (reset c)"
| "perform (OpGet i) c = after (Get i c)"
| "perform OpConsume c = after (Consume c)"
| "perform (OpLT k) c = after (LT k c)"
| "perform (OpLA k) c = after (LA k c)"
| "perform (OpLB k) c = after (LB k c)"
| "perform (OpNextTokenOnChannel i ch) c = after (NextTokenOnChannel i ch c)"
| "perform (OpAdjustSeekIndex i) c = after (adjustSeekIndex i c)"
| "perform (OpHiddenToRight i ch) c = after (getHiddenTokensToRight i ch c)"
| "perform (OpHiddenToLeft i ch) c = after (getHiddenTokensToLeft i ch c)"
| "perform (OpGetText iv) c = after (GetTextFromInterval iv c)"

fun performAll :: "operation list \<Rightarrow> CommonTokenStream \<Rightarrow> CommonTokenStream option" where
  "performAll [] c = Some c"
| "performAll (x # xs) c = (case perform x c of None \<Rightarrow> None | Some c' \<Rightarrow> performAll xs c')"

fun fetches :: "int list \<Rightarrow> CommonTokenStream \<Rightarrow> CommonTokenStream" where
  "fetches [] c = c"
| "fetches (n # ns) c = fetches ns (snd (fetch n c))"

section \<open>Invariants of the buffer\<close>

definition isEOF :: "token \<Rightarrow> bool" where
  "isEOF t \<longleftrightarrow> GetTokenType t = TokenEOF"

text \<open>Every buffered token carries its own position.\<close>

definition indexed :: "CommonTokenStream \<Rightarrow> bool" where
  "indexed c \<longleftrightarrow> map GetTokenIndex (tokens c) = map int [0..<length (tokens c)]"

text \<open>
  The flag and the buffer agree: without the flag the buffer holds no end-of-stream token;
  with it the buffer is empty (a stream rebound after its end was fetched) or ends in the only
  end-of-stream token it holds.
\<close>

definition eofLast :: "CommonTokenStream \<Rightarrow> bool" where
  "eofLast c =
     (if fetchedEOF c
      then tokens c = [] \<or> (isEOF (last (tokens c)) \<and> list_all (\<lambda>t. \<not> isEOF t) (butlast (tokens c)))
      else list_all (\<lambda>t. \<not> isEOF t) (tokens c))"

text \<open>The source produces an end-of-stream token among its next \<open>n\<close>, or the end is buffered.\<close>

definition exhaustsWithin :: "nat \<Rightarrow> CommonTokenStream \<Rightarrow> bool" where
  "exhaustsWithin n c \<longleftrightarrow> fetchedEOF c \<or> list_ex isEOF (stake n (tokenSource c))"

section \<open>Example inputs\<close>

text \<open>A token as a lexer creates it: not yet buffered, index \<open>-1\<close>.\<close>

definition lexerToken :: "int \<Rightarrow> int \<Rightarrow> string \<Rightarrow> token" where
  "lexerToken ty ch txt = \<lparr>GetTokenType = ty, GetChannel = ch, GetText = txt, GetTokenIndex = - 1\<rparr>"

definition eofToken :: token where
  "eofToken = lexerToken TokenEOF LexerDefaultTokenChannel ''<EOF>''"

definition abcSource :: "token stream" where
  "abcSource =
     [lexerToken 1 LexerDefaultTokenChannel ''a'', lexerToken 1 LexerDefaultTokenChannel ''b'',
      lexerToken 1 LexerDefaultTokenChannel ''c''] @- sconst eofToken"

definition hiddenSource :: "token stream" where
  "hiddenSource =
     [lexerToken 1 LexerDefaultTokenChannel ''x'', lexerToken 2 1 '' '', lexerToken 2 1 '' '',
      lexerToken 1 LexerDefaultTokenChannel ''y''] @- sconst eofToken"

definition eofOnlySource :: "token stream" where
  "eofOnlySource = sconst eofToken"

section \<open>Vocabulary of the proofs\<close>

text \<open>
  One pass of the loop body of \<^verbatim>\<open>fetch\<close> up to the test for the end-of-stream token: take
  the next token of the source, stamp it with its position, append it.
\<close>


definition appendNext :: "CommonTokenStream \<Rightarrow> CommonTokenStream" where
  "appendNext c =
     c\<lparr>tokenSource := stl (tokenSource c),
       tokens := tokens c @ [(shd (tokenSource c))\<lparr>GetTokenIndex := int (length (tokens c))\<rparr>]\<rparr>"

text \<open>
  \<open>extends c c'\<close>: the buffer of \<open>c'\<close> continues that of \<open>c\<close>, on the same channel, and
  what held of \<open>c\<close> (indices, the place of the end-of-stream token, the distance of the
  source from its end) still holds of \<open>c'\<close>; once the flag is set, buffer and source are
  frozen.
\<close>

definition extends :: "CommonTokenStream \<Rightarrow> CommonTokenStream \<Rightarrow> bool" where
  "extends c c' \<longleftrightarrow>
     prefix (tokens c) (tokens c') \<and> channel c' = channel c \<and>
     (indexed c \<longrightarrow> indexed c') \<and> (eofLast c \<longrightarrow> eofLast c') \<and>
     (\<forall>m. exhaustsWithin m c \<longrightarrow> exhaustsWithin m c') \<and>
     (fetchedEOF c \<longrightarrow>
        fetchedEOF c' \<and> tokens c' = tokens c \<and> tokenSource c' = tokenSource c)"

definition grows :: "CommonTokenStream \<Rightarrow> 'a outcome option \<Rightarrow> bool" where
  "grows c m \<longleftrightarrow> (case m of None \<Rightarrow> True | Some out \<Rightarrow> extends c (stateOf out))"



text \<open>The two halves of \<^verbatim>\<open>Consume\<close>: the value of its local \<^verbatim>\<open>SkipEofCheck\<close>, and the
  final step that syncs one position ahead and moves the cursor.\<close>

definition skipEofCheck :: "CommonTokenStream \<Rightarrow> bool" where
  "skipEofCheck c =
     (if index c \<ge> 0 then
        (if fetchedEOF c then index c < int (length (tokens c)) - 1
         else index c < int (length (tokens c)))
      else False)"

definition advance :: "CommonTokenStream \<Rightarrow> unit outcome option" where
  "advance c1 =
     (if fst (Sync (index c1 + 1) c1)
      then bnd (adjustSeekIndex (index c1 + 1) (snd (Sync (index c1 + 1) c1)))
             (\<lambda>r c3. Some (Return () (c3\<lparr>index := r\<rparr>)))
      else Some (Return () (snd (Sync (index c1 + 1) c1))))"


text \<open>
  The channel filter in the words of the specification: with the requested channel \<open>-1\<close> a
  token qualifies when it is off the default channel, otherwise when its channel is the
  requested one.
\<close>

definition admitted :: "int \<Rightarrow> token \<Rightarrow> bool" where
  "admitted ch t = (if ch = - 1 then GetChannel t \<noteq> LexerDefaultTokenChannel else GetChannel t = ch)"

text \<open>The buffered tokens at the indices \<open>left..right\<close>, both included.\<close>

definition slice :: "int \<Rightarrow> int \<Rightarrow> CommonTokenStream \<Rightarrow> token list" where
  "slice left right c = take (nat (right + 1 - left)) (drop (nat left) (tokens c))"



text \<open>
  Where a forward scan from \<open>i\<close> may end: at an index \<open>r \<ge> i\<close> inside the buffer whose token is
  on the stream's channel, or at \<open>-1\<close> with the end of the input buffered and no token on
  the channel at \<open>i\<close> or after it.
\<close>

definition landed :: "int \<Rightarrow> int \<Rightarrow> CommonTokenStream \<Rightarrow> bool" where
  "landed i r c \<longleftrightarrow>
     (i \<le> r \<and> r < Size c \<and> GetChannel (tokens c ! nat r) = channel c) \<or>
     (r = - 1 \<and> fetchedEOF c \<and> list_all (\<lambda>t. GetChannel t \<noteq> channel c) (drop (nat i) (tokens c)))"

section \<open>Properties of fetch and Sync\<close>

lemma fetch_loop_unfold:
  "fetch_loop n i c =
     (if i < n then
        (if isEOF (shd (tokenSource c)) then (i + 1, (appendNext c)\<lparr>fetchedEOF := True\<rparr>)
         else fetch_loop n (i + 1) (appendNext c))
      else (n, c))"
  by (subst fetch_loop.simps) (simp add: Let_def appendNext_def isEOF_def)

lemma fetch_loop_induct [case_names step]:
  fixes P :: "int \<Rightarrow> int \<Rightarrow> CommonTokenStream \<Rightarrow> bool"
  assumes "\<And>n i c. (i < n \<Longrightarrow> \<not> isEOF (shd (tokenSource c)) \<Longrightarrow> P n (i + 1) (appendNext c)) \<Longrightarrow> P n i c"
  shows "P n i c"
proof (induction n i c rule: fetch_loop.induct)
  case (1 n i c)
  show ?case
  proof (rule assms)
    assume "i < n" "\<not> isEOF (shd (tokenSource c))"
    then show "P n (i + 1) (appendNext c)"
      using "1.IH" [OF _ refl refl refl refl] by (simp add: appendNext_def isEOF_def)
  qed
qed

lemma extends_refl [simp]: "extends c c"
  by (simp add: extends_def)

lemma extends_trans: "extends a b \<Longrightarrow> extends b c \<Longrightarrow> extends a c"
  by (auto simp: extends_def)

lemma extends_index [simp]: "extends c (c'\<lparr>index := r\<rparr>) = extends c c'"
  by (simp add: extends_def indexed_def eofLast_def exhaustsWithin_def)

lemma list_ex_stake_mono:
  "list_ex P (stake m s) \<Longrightarrow> m \<le> m' \<Longrightarrow> list_ex P (stake m' s)"
proof -
  assume a: "list_ex P (stake m s)" and b: "m \<le> m'"
  have "stake m' s = stake m s @ stake (m' - m) (sdrop m s)"
    using b stake_add [of m s "m' - m"] by simp
  with a show ?thesis by (simp del: stake_add)
qed

lemma list_ex_stake_stl:
  "list_ex P (stake m s) \<Longrightarrow> \<not> P (shd s) \<Longrightarrow> 0 < m \<and> list_ex P (stake (m - 1) (stl s))"
  by (cases m) auto

lemma exhaustsWithin_mono: "exhaustsWithin m c \<Longrightarrow> m \<le> m' \<Longrightarrow> exhaustsWithin m' c"
  by (auto simp: exhaustsWithin_def intro: list_ex_stake_mono)

lemma exhausts_appendNext:
  "exhaustsWithin m c \<Longrightarrow> \<not> fetchedEOF c \<Longrightarrow> \<not> isEOF (shd (tokenSource c))
     \<Longrightarrow> 0 < m \<and> exhaustsWithin (m - 1) (appendNext c)"
  using list_ex_stake_stl [of isEOF m "tokenSource c"]
  by (simp add: exhaustsWithin_def appendNext_def)

lemma isEOF_index [simp]: "isEOF (t\<lparr>GetTokenIndex := k\<rparr>) = isEOF t"
  by (simp add: isEOF_def)

lemma extends_appendNext:
  "\<not> fetchedEOF c \<Longrightarrow> \<not> isEOF (shd (tokenSource c)) \<Longrightarrow> extends c (appendNext c)"
  unfolding extends_def
proof (intro conjI impI allI)
  fix m assume "\<not> fetchedEOF c" "\<not> isEOF (shd (tokenSource c))" "exhaustsWithin m c"
  then have "exhaustsWithin (m - 1) (appendNext c)" using exhausts_appendNext by blast
  then show "exhaustsWithin m (appendNext c)" by (rule exhaustsWithin_mono) simp
qed (simp_all add: appendNext_def indexed_def eofLast_def)

lemma extends_appendNext_eof:
  "\<not> fetchedEOF c \<Longrightarrow> isEOF (shd (tokenSource c))
     \<Longrightarrow> extends c ((appendNext c)\<lparr>fetchedEOF := True\<rparr>)"
  by (simp add: extends_def appendNext_def indexed_def eofLast_def exhaustsWithin_def)

lemma fetch_loop_extends: "\<not> fetchedEOF c \<Longrightarrow> extends c (snd (fetch_loop n i c))"
proof (induction n i c rule: fetch_loop_induct)
  case (step n i c)
  show ?case
  proof (cases "i < n \<and> \<not> isEOF (shd (tokenSource c))")
    case True
    then have "extends (appendNext c) (snd (fetch_loop n (i + 1) (appendNext c)))"
      using step by (simp add: appendNext_def)
    with True step.prems show ?thesis
      by (subst fetch_loop_unfold) (auto intro: extends_trans extends_appendNext)
  next
    case False
    with step.prems show ?thesis
      by (subst fetch_loop_unfold) (auto intro: extends_appendNext_eof)
  qed
qed

lemma fetch_loop_index: "index (snd (fetch_loop n i c)) = index c"
proof (induction n i c rule: fetch_loop_induct)
  case (step n i c)
  then show ?case
    by (subst fetch_loop_unfold) (auto simp: appendNext_def)
qed

text \<open>What fetch_loop returns and how long the buffer is afterwards.\<close>
lemma fetch_loop_result:
  "\<not> fetchedEOF c \<Longrightarrow> i \<le> n \<Longrightarrow> fetch_loop n i c = (r, c') \<Longrightarrow>
     i \<le> r \<and> r \<le> n \<and> int (length (tokens c')) = int (length (tokens c)) + (r - i) \<and>
     (r < n \<longrightarrow> fetchedEOF c') \<and> (fetchedEOF c' \<longrightarrow> tokens c' \<noteq> [] \<and> isEOF (last (tokens c')))"
proof (induction n i c rule: fetch_loop_induct)
  case (step n i c)
  show ?case
  proof (cases "i < n")
    case False
    with step.prems show ?thesis by (subst (asm) fetch_loop_unfold) auto
  next
    case True
    show ?thesis
    proof (cases "isEOF (shd (tokenSource c))")
      case True
      with \<open>i < n\<close> step.prems show ?thesis
        by (subst (asm) fetch_loop_unfold) (auto simp: appendNext_def)
    next
      case False
      with \<open>i < n\<close> step.prems have eq: "fetch_loop n (i + 1) (appendNext c) = (r, c')"
        by (subst (asm) fetch_loop_unfold) simp
      have "\<not> fetchedEOF (appendNext c)" using step.prems by (simp add: appendNext_def)
      from step.IH [OF \<open>i < n\<close> False this _ eq] \<open>i < n\<close>
      show ?thesis by (auto simp: appendNext_def)
    qed
  qed
qed

lemma fetch_extends: "extends c (snd (fetch n c))"
  by (simp add: fetch_def fetch_loop_extends)

lemma fetch_index: "index (snd (fetch n c)) = index c"
  by (simp add: fetch_def fetch_loop_index)

lemma Sync_extends: "extends c (snd (Sync i c))"
  by (simp add: Sync_def Let_def fetch_extends)

lemma Sync_index: "index (snd (Sync i c)) = index c"
  by (simp add: Sync_def Let_def fetch_index)

lemma Sync_fetched: "fetchedEOF c \<Longrightarrow> snd (Sync i c) = c"
  by (simp add: Sync_def Let_def fetch_def)

lemma Sync_result:
  "Sync i c = (b, c') \<Longrightarrow>
     (b \<longrightarrow> i < int (length (tokens c'))) \<and> (\<not> b \<longrightarrow> fetchedEOF c' \<and> int (length (tokens c')) \<le> i)"
proof (cases "i - int (length (tokens c)) + 1 > 0")
  case False
  assume "Sync i c = (b, c')"
  with False show ?thesis by (auto simp: Sync_def Let_def)
next
  case True
  assume s: "Sync i c = (b, c')"
  show ?thesis
  proof (cases "fetchedEOF c")
    case True
    with s \<open>i - int (length (tokens c)) + 1 > 0\<close> show ?thesis
      by (auto simp: Sync_def Let_def fetch_def)
  next
    case False
    obtain r where r: "fetch_loop (i - int (length (tokens c)) + 1) 0 c = (r, c')"
      and b: "b = (r \<ge> i - int (length (tokens c)) + 1)"
      using s True False by (cases "fetch_loop (i - int (length (tokens c)) + 1) 0 c")
        (auto simp: Sync_def Let_def fetch_def)
    from fetch_loop_result [OF False _ r] True b show ?thesis by auto
  qed
qed

section \<open>The filter loop and the text loop\<close>

lemma slice_empty: "right < left \<Longrightarrow> slice left right c = []"
  by (simp add: slice_def)

lemma slice_step:
  "0 \<le> left \<Longrightarrow> left \<le> right \<Longrightarrow> right < int (length (tokens c)) \<Longrightarrow>
     slice left right c = tokens c ! nat left # slice (left + 1) right c"
proof -
  assume a: "0 \<le> left" "left \<le> right" "right < int (length (tokens c))"
  then have l: "nat left < length (tokens c)" by simp
  have n: "nat (right + 1 - left) = Suc (nat (right + 1 - (left + 1)))" using a by simp
  have d: "drop (nat left) (tokens c) = tokens c ! nat left # drop (nat (left + 1)) (tokens c)"
    using l a(1) by (simp add: Cons_nth_drop_Suc nat_add_distrib)
  show ?thesis unfolding slice_def n d by simp
qed

lemma filter_loop_spec:
  "0 \<le> i \<Longrightarrow> right < int (length (tokens c)) \<Longrightarrow>
     filter_loop i right ch hidden c = Inr (hidden @ filter (admitted ch) (slice i right c))"
proof (induction i right ch hidden c rule: filter_loop.induct)
  case (1 i right ch hidden c)
  show ?case
  proof (cases "i < right + 1")
    case False
    then show ?thesis by (subst filter_loop.simps) (simp add: slice_empty)
  next
    case True
    with "1.prems" have t: "tokenAt c i = Inr (tokens c ! nat i)"
      by (simp add: tokenAt_def Size_def)
    have s: "slice i right c = tokens c ! nat i # slice (i + 1) right c"
      using True "1.prems" by (intro slice_step) simp_all
    have ih: "filter_loop (i + 1) right ch h c = Inr (h @ filter (admitted ch) (slice (i + 1) right c))"
      if "h = (if ch = - 1 then (if GetChannel (tokens c ! nat i) \<noteq> LexerDefaultTokenChannel
                 then hidden @ [tokens c ! nat i] else hidden)
               else if GetChannel (tokens c ! nat i) = ch then hidden @ [tokens c ! nat i]
               else hidden)" for h
      using "1.IH" [OF True t] "1.prems" that by simp
    show ?thesis
      using True by (subst filter_loop.simps) (simp add: t s ih admitted_def)
  qed
qed

lemma text_loop_spec:
  "0 \<le> i \<Longrightarrow> stop < int (length (tokens c)) \<Longrightarrow>
     text_loop i stop s c =
       Inr (s @ concat (map GetText (takeWhile (\<lambda>t. \<not> isEOF t) (slice i stop c))))"
proof (induction i stop s c rule: text_loop.induct)
  case (1 i stop s c)
  show ?case
  proof (cases "i < stop + 1")
    case False
    then show ?thesis by (subst text_loop.simps) (simp add: slice_empty)
  next
    case True
    with "1.prems" have t: "tokenAt c i = Inr (tokens c ! nat i)"
      by (simp add: tokenAt_def Size_def)
    have s: "slice i stop c = tokens c ! nat i # slice (i + 1) stop c"
      using True "1.prems" by (intro slice_step) simp_all
    show ?thesis
    proof (cases "isEOF (tokens c ! nat i)")
      case True
      with \<open>i < stop + 1\<close> show ?thesis
        by (subst text_loop.simps) (simp add: t s isEOF_def)
    next
      case False
      then have "GetTokenType (tokens c ! nat i) \<noteq> TokenEOF" by (simp add: isEOF_def)
      from "1.IH" [OF True t this] "1.prems" False \<open>i < stop + 1\<close> show ?thesis
        by (subst text_loop.simps) (simp add: t s isEOF_def)
    qed
  qed
qed

section \<open>Every call extends the buffer\<close>

text \<open>
  The only code that writes the buffer is the loop of \<^verbatim>\<open>fetch\<close>; every method reaches it
  through \<^verbatim>\<open>Sync\<close> or \<^verbatim>\<open>Fill\<close>. So the state a call leaves, returning or panicking, extends
  the state it started in.
\<close>


lemma grows_Return [simp]: "grows c (Some (Return v c')) = extends c c'"
  by (simp add: grows_def)

lemma grows_Panic [simp]: "grows c (Some (Panic e c')) = extends c c'"
  by (simp add: grows_def)

lemma grows_None [simp]: "grows c None"
  by (simp add: grows_def)

lemma grows_lift [simp]: "grows c (lift r c') = extends c c'"
  by (cases r) (simp_all add: lift_def)

lemma grows_from: "extends c c' \<Longrightarrow> grows c' m \<Longrightarrow> grows c m"
  by (auto simp: grows_def split: option.splits intro: extends_trans)

lemma grows_bnd:
  assumes "grows c m" and "\<And>v c'. extends c c' \<Longrightarrow> grows c' (f v c')"
  shows "grows c (bnd m f)"
proof (cases m)
  case None
  then show ?thesis by (simp add: bnd_def)
next
  case (Some out)
  show ?thesis
  proof (cases out)
    case (Return v c')
    with Some assms(1) have "extends c c'" by simp
    from grows_from [OF this assms(2) [OF this]] Some Return show ?thesis
      by (simp add: bnd_def)
  next
    case (Panic e c')
    with Some assms(1) show ?thesis by (simp add: bnd_def)
  qed
qed

lemma ntoc_loop_extends:
  assumes "ntoc_loop c i = Some out"
  shows "extends c (stateOf out)"
proof (rule ntoc_loop.raw_induct [where P = "\<lambda>c i out. extends c (stateOf out)", OF _ assms])
  fix ntoc c i out
  assume IH: "\<And>c i out. ntoc c i = Some out \<Longrightarrow> extends c (stateOf out)"
    and body: "(case tokenAt c i of
        Inl e \<Rightarrow> Some (Panic e c)
      | Inr token \<Rightarrow>
          if GetChannel token \<noteq> channel c then
            (if GetTokenType token = TokenEOF then Some (Return (- 1) c)
             else ntoc (snd (Sync (i + 1) c)) (i + 1))
          else Some (Return i c)) = Some out"
  show "extends c (stateOf out)"
  proof (cases "tokenAt c i")
    case (Inl e)
    with body show ?thesis by auto
  next
    case (Inr token)
    show ?thesis
    proof (cases "GetChannel token \<noteq> channel c \<and> GetTokenType token \<noteq> TokenEOF")
      case True
      with Inr body have "ntoc (snd (Sync (i + 1) c)) (i + 1) = Some out" by simp
      from IH [OF this] Sync_extends [of c "i + 1"] show ?thesis
        by (blast intro: extends_trans)
    next
      case False
      with Inr body show ?thesis by (auto split: if_splits)
    qed
  qed
qed

lemma ntoc_loop_grows: "grows c (ntoc_loop c i)"
  using ntoc_loop_extends [of c i] by (cases "ntoc_loop c i") (simp_all add: grows_def)

lemma NextTokenOnChannel_grows: "grows c (NextTokenOnChannel i ch c)"
  unfolding NextTokenOnChannel_def Let_def
  using Sync_extends [of c i] ntoc_loop_grows [of "snd (Sync i c)" i]
  by (auto intro: grows_from)

lemma adjustSeekIndex_grows: "grows c (adjustSeekIndex i c)"
  by (simp add: adjustSeekIndex_def NextTokenOnChannel_grows)

lemma setupStream_grows: "grows c (setupStream c)"
  unfolding setupStream_def Let_def
  by (rule grows_from [OF Sync_extends [of c 0]]) (intro grows_bnd adjustSeekIndex_grows, simp)

lemma lazyInit_grows: "grows c (lazyInit c)"
  by (simp add: lazyInit_def setupStream_grows)

lemma Seek_grows: "grows c (Seek i c)"
  unfolding Seek_def
  by (intro grows_bnd lazyInit_grows adjustSeekIndex_grows) simp

lemma Get_grows: "grows c (Get i c)"
  unfolding Get_def by (intro grows_bnd lazyInit_grows) simp

lemma LB_grows: "grows c (LB k c)"
  by (simp add: LB_def bnd_def lift_def split: sum.splits)

lemma LT_loop_grows: "grows c (LT_loop k n i c)"
proof (induction k n i c rule: LT_loop.induct)
  case (1 k n i c)
  show ?case
  proof (cases "n < k")
    case False
    then show ?thesis by (subst LT_loop.simps) simp
  next
    case True
    show ?thesis
    proof (cases "fst (Sync (i + 1) c)")
      case True
      have "grows (snd (Sync (i + 1) c))
          (bnd (NextTokenOnChannel (i + 1) (channel c) (snd (Sync (i + 1) c)))
             (\<lambda>i' c'. LT_loop k (n + 1) i' c'))"
        by (intro grows_bnd NextTokenOnChannel_grows "1.IH"(1) \<open>n < k\<close> True)
      from grows_from [OF Sync_extends this] \<open>n < k\<close> True show ?thesis
        by (subst LT_loop.simps) simp
    next
      case False
      from grows_from [OF Sync_extends "1.IH"(2) [OF \<open>n < k\<close> False]] \<open>n < k\<close> False
      show ?thesis by (subst LT_loop.simps) simp
    qed
  qed
qed

lemma LT_grows: "grows c (LT k c)"
  unfolding LT_def
  by (intro grows_bnd lazyInit_grows) (auto intro!: grows_bnd LB_grows LT_loop_grows)

lemma LA_grows: "grows c (LA k c)"
  unfolding LA_def
  by (intro grows_bnd LT_grows) (simp split: option.splits)

lemma Consume_grows: "grows c (Consume c)"
  unfolding Consume_def Let_def
proof (intro grows_bnd)
  show "grows c (if \<not> (if 0 \<le> index c then if fetchedEOF c then index c < int (length (tokens c)) - 1
          else index c < int (length (tokens c)) else False)
        then bnd (LA 1 c) (\<lambda>la c1. if la = TokenEOF then Some (Panic CannotConsumeEOF c1)
          else Some (Return () c1))
        else Some (Return () c))"
    by (auto intro!: grows_bnd LA_grows)
next
  fix v :: unit and c'
  have "grows (snd (Sync (index c' + 1) c'))
      (bnd (adjustSeekIndex (index c' + 1) (snd (Sync (index c' + 1) c')))
         (\<lambda>r c3. Some (Return () (c3\<lparr>index := r\<rparr>))))"
    by (intro grows_bnd adjustSeekIndex_grows) simp
  from grows_from [OF Sync_extends this] Sync_extends [of c' "index c' + 1"]
  show "grows c' (if fst (Sync (index c' + 1) c')
      then bnd (adjustSeekIndex (index c' + 1) (snd (Sync (index c' + 1) c')))
         (\<lambda>r c3. Some (Return () (c3\<lparr>index := r\<rparr>)))
      else Some (Return () (snd (Sync (index c' + 1) c'))))"
    by simp
qed

lemma fill_loop_extends:
  assumes "fill_loop c = Some c'"
  shows "extends c c'"
proof (rule fill_loop.raw_induct [where P = "\<lambda>c c'. extends c c'", OF _ assms])
  fix fill c c'
  assume IH: "\<And>c c'. fill c = Some c' \<Longrightarrow> extends c c'"
    and body: "(if fst (fetch 1000 c) = 1000 then fill (snd (fetch 1000 c))
      else Some (snd (fetch 1000 c))) = Some c'"
  show "extends c c'"
  proof (cases "fst (fetch 1000 c) = 1000")
    case True
    with body have "fill (snd (fetch 1000 c)) = Some c'" by simp
    from IH [OF this] fetch_extends [of c 1000] show ?thesis
      by (blast intro: extends_trans)
  next
    case False
    with body fetch_extends [of c 1000] show ?thesis by auto
  qed
qed

lemma Fill_grows: "grows c (Fill c)"
  unfolding Fill_def
  by (intro grows_bnd lazyInit_grows) (auto split: option.splits dest: fill_loop_extends)

lemma getHiddenTokensToRight_grows: "grows c (getHiddenTokensToRight i ch c)"
  unfolding getHiddenTokensToRight_def Let_def
  by (intro grows_bnd lazyInit_grows) (auto intro!: grows_bnd NextTokenOnChannel_grows)

lemma getHiddenTokensToLeft_grows: "grows c (getHiddenTokensToLeft i ch c)"
  unfolding getHiddenTokensToLeft_def
  by (intro grows_bnd lazyInit_grows) (auto split: sum.splits)

lemma GetTextFromInterval_grows: "grows c (GetTextFromInterval iv c)"
  unfolding GetTextFromInterval_def Let_def
  by (intro grows_bnd lazyInit_grows Fill_grows) auto

lemma after_extends: "grows c m \<Longrightarrow> after m = Some c' \<Longrightarrow> extends c c'"
  by (auto simp: grows_def after_def split: option.splits)

lemma perform_extends: "perform x c = Some c' \<Longrightarrow> extends c c'"
proof (cases x)
  case (OpFetch n)
  assume "perform x c = Some c'"
  with OpFetch fetch_extends [of c n] show ?thesis by auto
next
  case (OpSync i)
  assume "perform x c = Some c'"
  with OpSync Sync_extends [of c i] show ?thesis by auto
qed (auto intro: after_extends Fill_grows lazyInit_grows Seek_grows Get_grows Consume_grows
      LT_grows LA_grows LB_grows NextTokenOnChannel_grows adjustSeekIndex_grows
      getHiddenTokensToRight_grows getHiddenTokensToLeft_grows GetTextFromInterval_grows
      simp: reset_def)

lemma performAll_extends: "performAll xs c = Some c' \<Longrightarrow> extends c c'"
proof (induction xs arbitrary: c)
  case Nil
  then show ?case by simp
next
  case (Cons x xs)
  then obtain c1 where "perform x c = Some c1" "performAll xs c1 = Some c'"
    by (auto split: option.splits)
  with Cons.IH perform_extends show ?case by (blast intro: extends_trans)
qed

text \<open>
  The agreement of flag and buffer is an invariant: it holds of a new stream and of a rebound
  one, and every call keeps it.
\<close>

lemma eofLast_NewCommonTokenStream: "eofLast (NewCommonTokenStream src ch)"
  by (simp add: eofLast_def NewCommonTokenStream_def)

lemma eofLast_SetTokenSource: "eofLast (SetTokenSource src c)"
  by (simp add: eofLast_def SetTokenSource_def)

lemma eofLast_performAll: "eofLast c \<Longrightarrow> performAll xs c = Some c' \<Longrightarrow> eofLast c'"
  using performAll_extends [of xs c c'] by (simp add: extends_def)

section \<open>The forward scan returns\<close>

lemma Sync_within: "i < int (length (tokens c)) \<Longrightarrow> Sync i c = (True, c)"
  by (simp add: Sync_def)

lemma Sync_next:
  "int (length (tokens c)) = i \<Longrightarrow> \<not> fetchedEOF c \<Longrightarrow>
     Sync i c = (True, if isEOF (shd (tokenSource c)) then (appendNext c)\<lparr>fetchedEOF := True\<rparr>
                       else appendNext c)"
  by (simp add: Sync_def fetch_def fetch_loop_unfold [of 1 0 c] fetch_loop_unfold [of 1 1])

lemma eofLast_isEOF_last:
  assumes "eofLast c" and "0 \<le> i" and "i < int (length (tokens c))"
    and "isEOF (tokens c ! nat i)"
  shows "fetchedEOF c \<and> i = int (length (tokens c)) - 1"
proof -
  have n: "nat i < length (tokens c)" using assms(2,3) by simp
  show ?thesis
  proof (cases "fetchedEOF c")
    case False
    with assms(1) have "list_all (\<lambda>t. \<not> isEOF t) (tokens c)" by (simp add: eofLast_def)
    with n assms(4) show ?thesis by (auto simp: list_all_length)
  next
    case True
    with assms(1) n have b: "list_all (\<lambda>t. \<not> isEOF t) (butlast (tokens c))"
      by (auto simp: eofLast_def)
    have "\<not> nat i < length (butlast (tokens c))"
    proof
      assume l: "nat i < length (butlast (tokens c))"
      with b have "\<not> isEOF (butlast (tokens c) ! nat i)" by (simp add: list_all_length)
      with l assms(4) show False by (simp add: nth_butlast)
    qed
    then have "nat i = length (tokens c) - 1" using n by simp
    then have "i = int (length (tokens c)) - 1" using assms(2) n by arith
    with True show ?thesis by simp
  qed
qed

lemma eofLast_fetched_last:
  "eofLast c \<Longrightarrow> fetchedEOF c \<Longrightarrow> tokens c \<noteq> [] \<Longrightarrow> isEOF (tokens c ! (length (tokens c) - 1))"
  by (simp add: eofLast_def last_conv_nth)

lemma landed_scan:
  assumes "landed (i + 1) r c'" and "0 \<le> i" and "i < Size c'"
    and "GetChannel (tokens c' ! nat i) \<noteq> channel c'"
  shows "landed i r c'"
proof -
  have "drop (nat i) (tokens c') = tokens c' ! nat i # drop (nat (i + 1)) (tokens c')"
    using assms(2,3) by (simp add: Size_def Cons_nth_drop_Suc nat_add_distrib)
  with assms(1,4) show ?thesis by (auto simp: landed_def)
qed

lemma ntoc_loop_total:
  assumes "d = nat (int (length (tokens c)) - i) + (if fetchedEOF c then 0 else m)"
    and "eofLast c" and "exhaustsWithin m c" and "0 \<le> i" and "i < int (length (tokens c))"
  shows "\<exists>r c'. ntoc_loop c i = Some (Return r c') \<and> index c' = index c \<and> landed i r c'"
  using assms
proof (induction d arbitrary: c i m rule: less_induct)
  case (less d)
  let ?t = "tokens c ! nat i"
  have at: "tokenAt c i = Inr ?t" using less.prems by (simp add: tokenAt_def Size_def)
  show ?case
  proof (cases "GetChannel ?t \<noteq> channel c")
    case False
    then have "ntoc_loop c i = Some (Return i c)" by (subst ntoc_loop.simps) (simp add: at)
    moreover have "landed i i c" using False less.prems by (simp add: landed_def Size_def)
    ultimately show ?thesis by blast
  next
    case off: True
    show ?thesis
    proof (cases "isEOF ?t")
      case True
      from eofLast_isEOF_last [OF less.prems(2) less.prems(4) less.prems(5) True]
      have f: "fetchedEOF c" and l: "i = int (length (tokens c)) - 1" by simp_all
      have ni: "nat i < length (tokens c)" "Suc (nat i) = length (tokens c)"
        using l less.prems(4,5) by arith+
      have "drop (nat i) (tokens c) = [?t]"
        using Cons_nth_drop_Suc [OF ni(1)] ni(2) by simp
      with off f have "landed i (- 1) c" by (simp add: landed_def)
      moreover have "ntoc_loop c i = Some (Return (- 1) c)"
        using True off by (subst ntoc_loop.simps) (simp add: at isEOF_def)
      ultimately show ?thesis by blast
    next
      case False
      let ?c1 = "snd (Sync (i + 1) c)"
      have unf: "ntoc_loop c i = ntoc_loop ?c1 (i + 1)"
        using False off by (subst ntoc_loop.simps) (simp add: at isEOF_def)
      have e1: "eofLast ?c1" and ch1: "channel ?c1 = channel c"
        and pre: "prefix (tokens c) (tokens ?c1)"
        using Sync_extends [of c "i + 1"] less.prems(2) by (simp_all add: extends_def)
      have "\<exists>m1. exhaustsWithin m1 ?c1 \<and> i + 1 < int (length (tokens ?c1)) \<and>
          nat (int (length (tokens ?c1)) - (i + 1)) + (if fetchedEOF ?c1 then 0 else m1) < d"
      proof (cases "i + 1 < int (length (tokens c))")
        case True
        then have "?c1 = c" by (simp add: Sync_within)
        with True less.prems show ?thesis by (intro exI [of _ m]) auto
      next
        case last: False
        with less.prems have len: "int (length (tokens c)) = i + 1" by simp
        have nf: "\<not> fetchedEOF c"
        proof
          assume f: "fetchedEOF c"
          have "tokens c \<noteq> []" using less.prems(5) less.prems(4) by auto
          moreover have "length (tokens c) - 1 = nat i" using len less.prems(4) by arith
          ultimately show False
            using eofLast_fetched_last [OF less.prems(2) f] False by simp
        qed
        have m0: "0 < m" using less.prems(3) nf by (cases m) (auto simp: exhaustsWithin_def)
        show ?thesis
        proof (cases "isEOF (shd (tokenSource c))")
          case True
          then have "?c1 = (appendNext c)\<lparr>fetchedEOF := True\<rparr>"
            using Sync_next [OF len nf] by simp
          with len m0 less.prems(1) nf show ?thesis
            by (intro exI [of _ m]) (auto simp: appendNext_def exhaustsWithin_def)
        next
          case False
          then have c1: "?c1 = appendNext c" using Sync_next [OF len nf] by simp
          from exhausts_appendNext [OF less.prems(3) nf False]
          have "exhaustsWithin (m - 1) (appendNext c)" by simp
          with c1 len m0 less.prems(1) nf show ?thesis
            by (intro exI [of _ "m - 1"]) (auto simp: appendNext_def)
        qed
      qed
      then obtain m1 where x1: "exhaustsWithin m1 ?c1" and l1: "i + 1 < int (length (tokens ?c1))"
        and d1: "nat (int (length (tokens ?c1)) - (i + 1)) + (if fetchedEOF ?c1 then 0 else m1) < d"
        by blast
      from less.IH [OF d1 refl e1 x1 _ l1] less.prems(4)
      obtain r c' where run: "ntoc_loop ?c1 (i + 1) = Some (Return r c')"
        and ix: "index c' = index ?c1" and la: "landed (i + 1) r c'"
        by auto
      from ntoc_loop_extends [OF run] have ex: "extends ?c1 c'" by simp
      then have pre': "prefix (tokens c) (tokens c')" and ch': "channel c' = channel c"
        using pre ch1 by (auto simp: extends_def)
      have same: "tokens c' ! nat i = ?t" and lt: "i < Size c'"
        using pre' less.prems(4,5) by (auto simp: prefix_def nth_append Size_def)
      from landed_scan [OF la less.prems(4) lt] same off ch'
      have "landed i r c'" by simp
      with run ix unf Sync_index [of "i + 1" c] show ?thesis by simp
    qed
  qed
qed


lemma Sync_true: "fst (Sync i c) \<Longrightarrow> i < int (length (tokens (snd (Sync i c))))"
  by (cases "Sync i c") (use Sync_result [of i c] in auto)

lemma Sync_false:
  "\<not> fst (Sync i c) \<Longrightarrow> fetchedEOF (snd (Sync i c)) \<and> int (length (tokens (snd (Sync i c)))) \<le> i"
  by (cases "Sync i c") (use Sync_result [of i c] in auto)

lemma NextTokenOnChannel_total:
  assumes "eofLast c" and "exhaustsWithin m c" and "0 \<le> i"
  shows "\<exists>r c'. NextTokenOnChannel i ch c = Some (Return r c') \<and> index c' = index c \<and>
           landed i r c' \<and> extends c c'"
proof -
  let ?c1 = "snd (Sync i c)"
  have ex: "extends c ?c1" by (rule Sync_extends)
  then have e1: "eofLast ?c1" and x1: "exhaustsWithin m ?c1"
    using assms(1,2) by (simp_all add: extends_def)
  show ?thesis
  proof (cases "i \<ge> int (length (tokens ?c1))")
    case True
    have "\<not> fst (Sync i c)" using Sync_true [of i c] True by auto
    then have "fetchedEOF ?c1" using Sync_false [of i c] by simp
    with True assms(3) have "landed i (- 1) ?c1" by (simp add: landed_def)
    with True ex Sync_index [of i c] show ?thesis by (simp add: NextTokenOnChannel_def Let_def)
  next
    case False
    then have lt: "i < int (length (tokens ?c1))" by simp
    from ntoc_loop_total [OF refl e1 x1 assms(3) lt]
    obtain r c' where run: "ntoc_loop ?c1 i = Some (Return r c')"
      and ix: "index c' = index ?c1" and la: "landed i r c'"
      by blast
    from ntoc_loop_extends [OF run] ex have "extends c c'" by (auto intro: extends_trans)
    with run ix la False Sync_index [of i c] show ?thesis
      by (simp add: NextTokenOnChannel_def Let_def)
  qed
qed

lemma lazyInit_total:
  assumes "eofLast c" and "exhaustsWithin m c"
  shows "\<exists>c'. lazyInit c = Some (Return () c') \<and> extends c c' \<and>
           (if index c = - 1 then landed 0 (index c') c' else c' = c)"
proof (cases "index c = - 1")
  case False
  then show ?thesis by (simp add: lazyInit_def)
next
  case True
  let ?c1 = "snd (Sync 0 c)"
  have ex: "extends c ?c1" by (rule Sync_extends)
  then have e1: "eofLast ?c1" and x1: "exhaustsWithin m ?c1"
    using assms by (simp_all add: extends_def)
  from NextTokenOnChannel_total [OF e1 x1, of 0 "channel ?c1"]
  obtain r c' where run: "NextTokenOnChannel 0 (channel ?c1) ?c1 = Some (Return r c')"
    and la: "landed 0 r c'" and ex': "extends ?c1 c'"
    by auto
  have "extends c (c'\<lparr>index := r\<rparr>)" using ex ex' by (auto intro: extends_trans)
  moreover have "landed 0 r (c'\<lparr>index := r\<rparr>)" using la by (simp add: landed_def Size_def)
  ultimately show ?thesis
    using True run by (simp add: lazyInit_def setupStream_def adjustSeekIndex_def Let_def bnd_def)
qed

section \<open>Panics of the scan, lookahead of one token\<close>


lemma ntoc_loop_panic:
  assumes "ntoc_loop c i = Some out"
  shows "\<forall>e c'. out = Panic e c' \<longrightarrow> e = IndexOutOfRange"
proof (rule ntoc_loop.raw_induct
    [where P = "\<lambda>c i out. \<forall>e c'. out = Panic e c' \<longrightarrow> e = IndexOutOfRange", OF _ assms])
  fix ntoc c i out
  assume IH: "\<And>c i out. ntoc c i = Some out \<Longrightarrow> \<forall>e c'. out = Panic e c' \<longrightarrow> e = IndexOutOfRange"
    and body: "(case tokenAt c i of
        Inl e \<Rightarrow> Some (Panic e c)
      | Inr token \<Rightarrow>
          if GetChannel token \<noteq> channel c then
            (if GetTokenType token = TokenEOF then Some (Return (- 1) c)
             else ntoc (snd (Sync (i + 1) c)) (i + 1))
          else Some (Return i c)) = Some out"
  show "\<forall>e c'. out = Panic e c' \<longrightarrow> e = IndexOutOfRange"
  proof (cases "tokenAt c i")
    case (Inl e)
    with body show ?thesis by (auto simp: tokenAt_def split: if_splits)
  next
    case (Inr token)
    with body IH show ?thesis by (auto split: if_splits)
  qed
qed

lemma NextTokenOnChannel_panic:
  "NextTokenOnChannel i ch c = Some (Panic e c') \<Longrightarrow> e = IndexOutOfRange"
  using ntoc_loop_panic [of "snd (Sync i c)" i "Panic e c'"]
  by (auto simp: NextTokenOnChannel_def Let_def split: if_splits)

lemma lazyInit_panic: "lazyInit c = Some (Panic e c') \<Longrightarrow> e = IndexOutOfRange"
  by (auto simp: lazyInit_def setupStream_def adjustSeekIndex_def Let_def bnd_def
      split: if_splits option.splits outcome.splits dest: NextTokenOnChannel_panic)

lemma lazyInit_done: "index c \<noteq> - 1 \<Longrightarrow> lazyInit c = Some (Return () c)"
  by (simp add: lazyInit_def)

lemma lazyInit_idem: "lazyInit c = Some (Return () c1) \<Longrightarrow> index c1 \<noteq> - 1 \<Longrightarrow> lazyInit c1 = Some (Return () c1)"
  by (simp add: lazyInit_def)

lemma LT_1:
  "LT 1 c = bnd (lazyInit c) (\<lambda>_ c1.
      bnd (lift (tokenAt c1 (index c1)) c1) (\<lambda>t c3. Some (Return (Some t) c3)))"
  by (simp add: LT_def LT_loop.simps [of 1 1] bnd_def)

lemma LT_1_cases:
  "LT 1 c = None \<or> (\<exists>c'. LT 1 c = Some (Panic IndexOutOfRange c')) \<or>
   (\<exists>c1. lazyInit c = Some (Return () c1) \<and> 0 \<le> index c1 \<and> index c1 < int (length (tokens c1)) \<and>
         LT 1 c = Some (Return (Some (tokens c1 ! nat (index c1))) c1))"
proof (cases "lazyInit c")
  case None
  then show ?thesis by (simp add: LT_1 bnd_def)
next
  case (Some out)
  show ?thesis
  proof (cases out)
    case (Panic e c')
    with Some lazyInit_panic [of c e c'] show ?thesis by (simp add: LT_1 bnd_def)
  next
    case (Return u c1)
    with Some show ?thesis
      by (auto simp: LT_1 bnd_def lift_def tokenAt_def Size_def)
  qed
qed

lemma Sync_idem: "snd (Sync i (snd (Sync i c))) = snd (Sync i c)"
proof (cases "fst (Sync i c)")
  case True
  from Sync_within [OF Sync_true [OF True]] show ?thesis by simp
next
  case False
  from Sync_false [OF False] show ?thesis by (simp add: Sync_fetched)
qed

lemma adjustSeekIndex_after_Sync: "adjustSeekIndex i (snd (Sync i c)) = adjustSeekIndex i c"
  by (simp add: adjustSeekIndex_def NextTokenOnChannel_def Sync_idem)

lemma Sync_past_token:
  assumes "eofLast c" and "0 \<le> i" and "i < int (length (tokens c))"
    and "\<not> isEOF (tokens c ! nat i)"
  shows "fst (Sync (i + 1) c)"
proof (cases "i + 1 < int (length (tokens c))")
  case True
  then show ?thesis by (simp add: Sync_within)
next
  case False
  with assms(3) have len: "int (length (tokens c)) = i + 1" by simp
  have "\<not> fetchedEOF c"
  proof
    assume f: "fetchedEOF c"
    have "tokens c \<noteq> []" using assms(2,3) by auto
    moreover have "length (tokens c) - 1 = nat i" using len assms(2) by arith
    ultimately show False using eofLast_fetched_last [OF assms(1) f] assms(4) by simp
  qed
  from Sync_next [OF len this] show ?thesis by simp
qed

section \<open>Consume\<close>

lemma Consume_alt:
  "Consume c =
     bnd (if \<not> skipEofCheck c
          then bnd (LA 1 c) (\<lambda>la c1.
                 if la = TokenEOF then Some (Panic CannotConsumeEOF c1) else Some (Return () c1))
          else Some (Return () c))
       (\<lambda>_. advance)"
  unfolding Consume_def skipEofCheck_def advance_def Let_def ..

lemma advance_panic: "advance c = Some (Panic e c') \<Longrightarrow> e = IndexOutOfRange"
  by (auto simp: advance_def adjustSeekIndex_def bnd_def
      split: if_splits option.splits outcome.splits dest: NextTokenOnChannel_panic)

lemma advance_on_token:
  assumes "eofLast c" and "0 \<le> index c" and "index c < int (length (tokens c))"
    and "\<not> isEOF (tokens c ! nat (index c))"
  shows "advance c = bnd (adjustSeekIndex (index c + 1) c) (\<lambda>r c3. Some (Return () (c3\<lparr>index := r\<rparr>)))"
  using Sync_past_token [OF assms] by (simp add: advance_def adjustSeekIndex_after_Sync)

lemma skip_not_eof:
  assumes "eofLast c" and "skipEofCheck c"
  shows "0 \<le> index c \<and> index c < int (length (tokens c)) \<and> \<not> isEOF (tokens c ! nat (index c))"
proof -
  from assms(2) have r: "0 \<le> index c" "index c < int (length (tokens c))"
    by (auto simp: skipEofCheck_def split: if_splits)
  have "\<not> isEOF (tokens c ! nat (index c))"
  proof
    assume "isEOF (tokens c ! nat (index c))"
    from eofLast_isEOF_last [OF assms(1) r this] assms(2) show False
      by (auto simp: skipEofCheck_def split: if_splits)
  qed
  with r show ?thesis by simp
qed

lemma LT_1_at_cursor:
  "0 \<le> index c \<Longrightarrow> index c < int (length (tokens c)) \<Longrightarrow>
     LT 1 c = Some (Return (Some (tokens c ! nat (index c))) c)"
  by (simp add: LT_1 lazyInit_def bnd_def lift_def tokenAt_def Size_def)

lemma bnd_ReturnD:
  "bnd m f = Some (Return v c') \<Longrightarrow> \<exists>u c1. m = Some (Return u c1) \<and> f u c1 = Some (Return v c')"
  by (auto simp: bnd_def split: option.splits outcome.splits)

lemma Consume_skip: "skipEofCheck c \<Longrightarrow> Consume c = advance c"
  by (simp add: Consume_alt bnd_def)

lemma Consume_check:
  "\<not> skipEofCheck c \<Longrightarrow> LT 1 c = Some (Return (Some t) c1) \<Longrightarrow>
     Consume c = (if isEOF t then Some (Panic CannotConsumeEOF c1) else advance c1)"
  by (simp add: Consume_alt LA_def bnd_def isEOF_def)

lemma Consume_check_fail:
  "\<not> skipEofCheck c \<Longrightarrow> LT 1 c = None \<Longrightarrow> Consume c = None"
  "\<not> skipEofCheck c \<Longrightarrow> LT 1 c = Some (Panic e c') \<Longrightarrow> Consume c = Some (Panic e c')"
  by (simp_all add: Consume_alt LA_def bnd_def)

lemma Consume_error_iff:
  assumes "eofLast c"
  shows "Consume c = Some (Panic CannotConsumeEOF c1) \<longleftrightarrow>
         (\<exists>t. LT 1 c = Some (Return (Some t) c1) \<and> isEOF t)"
proof (cases "skipEofCheck c")
  case True
  from skip_not_eof [OF assms True] LT_1_at_cursor [of c]
  have "LT 1 c = Some (Return (Some (tokens c ! nat (index c))) c)"
    and "\<not> isEOF (tokens c ! nat (index c))" by simp_all
  then have "\<not> (\<exists>t. LT 1 c = Some (Return (Some t) c1) \<and> isEOF t)" by auto
  moreover have "Consume c \<noteq> Some (Panic CannotConsumeEOF c1)"
    using advance_panic [of c CannotConsumeEOF c1] True by (auto simp: Consume_skip)
  ultimately show ?thesis by simp
next
  case False
  from LT_1_cases [of c] show ?thesis
  proof (elim disjE exE conjE)
    assume "LT 1 c = None"
    with Consume_check_fail(1) [OF False] show ?thesis by simp
  next
    fix c' assume "LT 1 c = Some (Panic IndexOutOfRange c')"
    with Consume_check_fail(2) [OF False] show ?thesis by simp
  next
    fix c0 assume lt: "LT 1 c = Some (Return (Some (tokens c0 ! nat (index c0))) c0)"
    show ?thesis
    proof (cases "isEOF (tokens c0 ! nat (index c0))")
      case True
      with Consume_check [OF False lt] lt show ?thesis by auto
    next
      case nf: False
      with Consume_check [OF False lt] have "Consume c = advance c0" by simp
      with advance_panic [of c0 CannotConsumeEOF c1] nf lt show ?thesis by auto
    qed
  qed
qed

lemma Consume_success:
  assumes "eofLast c" and "Consume c = Some (Return () c')"
  shows "\<exists>c0 r c2. lazyInit c = Some (Return () c0) \<and>
           adjustSeekIndex (index c0 + 1) c0 = Some (Return r c2) \<and> c' = c2\<lparr>index := r\<rparr>"
proof -
  have "\<exists>c0. lazyInit c = Some (Return () c0) \<and> eofLast c0 \<and> 0 \<le> index c0 \<and>
          index c0 < int (length (tokens c0)) \<and> \<not> isEOF (tokens c0 ! nat (index c0)) \<and>
          advance c0 = Some (Return () c')"
  proof (cases "skipEofCheck c")
    case True
    from skip_not_eof [OF assms(1) True] assms True show ?thesis
      by (intro exI [of _ c]) (simp add: Consume_skip lazyInit_def)
  next
    case False
    from LT_1_cases [of c] show ?thesis
    proof (elim disjE exE conjE)
      assume "LT 1 c = None"
      with Consume_check_fail(1) [OF False] assms(2) show ?thesis by simp
    next
      fix c1 assume "LT 1 c = Some (Panic IndexOutOfRange c1)"
      with Consume_check_fail(2) [OF False] assms(2) show ?thesis by simp
    next
      fix c0 assume li: "lazyInit c = Some (Return () c0)"
        and r: "0 \<le> index c0" "index c0 < int (length (tokens c0))"
        and lt: "LT 1 c = Some (Return (Some (tokens c0 ! nat (index c0))) c0)"
      have "eofLast c0" using lazyInit_grows [of c] li assms(1) by (simp add: extends_def)
      with Consume_check [OF False lt] assms(2) li r show ?thesis
        by (intro exI [of _ c0]) (auto split: if_splits)
    qed
  qed
  then obtain c0 where li: "lazyInit c = Some (Return () c0)" and e: "eofLast c0"
    and r: "0 \<le> index c0" "index c0 < int (length (tokens c0))"
    and t: "\<not> isEOF (tokens c0 ! nat (index c0))" and a: "advance c0 = Some (Return () c')"
    by blast
  from a advance_on_token [OF e r t]
  have "bnd (adjustSeekIndex (index c0 + 1) c0) (\<lambda>r c3. Some (Return () (c3\<lparr>index := r\<rparr>)))
      = Some (Return () c')" by simp
  from bnd_ReturnD [OF this] li show ?thesis by auto
qed

section \<open>Fill\<close>


lemma fetch_short_fetched: "fst (fetch 1000 c) \<noteq> 1000 \<Longrightarrow> fetchedEOF (snd (fetch 1000 c))"
proof (cases "fetchedEOF c")
  case True
  then show ?thesis by (simp add: fetch_def)
next
  case False
  assume ne: "fst (fetch 1000 c) \<noteq> 1000"
  obtain r c' where r: "fetch_loop 1000 0 c = (r, c')" by (cases "fetch_loop 1000 0 c")
  from fetch_loop_result [OF False _ r] ne r False show ?thesis by (simp add: fetch_def)
qed

lemma fill_loop_result:
  assumes "fill_loop c = Some c'"
  shows "fetchedEOF c' \<and> index c' = index c \<and> (fetchedEOF c \<longrightarrow> c' = c)"
proof (rule fill_loop.raw_induct
    [where P = "\<lambda>c c'. fetchedEOF c' \<and> index c' = index c \<and> (fetchedEOF c \<longrightarrow> c' = c)", OF _ assms])
  fix fill c c'
  assume IH: "\<And>c c'. fill c = Some c'
      \<Longrightarrow> fetchedEOF c' \<and> index c' = index c \<and> (fetchedEOF c \<longrightarrow> c' = c)"
    and body: "(if fst (fetch 1000 c) = 1000 then fill (snd (fetch 1000 c))
      else Some (snd (fetch 1000 c))) = Some c'"
  show "fetchedEOF c' \<and> index c' = index c \<and> (fetchedEOF c \<longrightarrow> c' = c)"
  proof (cases "fst (fetch 1000 c) = 1000")
    case True
    then have "\<not> fetchedEOF c" by (auto simp: fetch_def)
    moreover from True body have "fill (snd (fetch 1000 c)) = Some c'" by simp
    ultimately show ?thesis using IH fetch_index [of 1000 c] by auto
  next
    case False
    with body have "c' = snd (fetch 1000 c)" by simp
    with fetch_short_fetched [OF False] fetch_index [of 1000 c] show ?thesis
      by (auto simp: fetch_def)
  qed
qed

lemma fill_loop_fetched: "fetchedEOF c \<Longrightarrow> fill_loop c = Some c"
  by (subst fill_loop.simps) (simp add: fetch_def)

lemma ntoc_loop_rescan:
  assumes "ntoc_loop c i = Some out"
  shows "extends c (stateOf out) \<and>
         (\<forall>c2 c1. out = Return (- 1) c2 \<and> prefix (tokens c2) (tokens c1) \<and>
              channel c1 = channel c \<and> fetchedEOF c1 \<longrightarrow>
              ntoc_loop c1 i = Some (Return (- 1) c1))"
proof (rule ntoc_loop.raw_induct
    [where P = "\<lambda>c i out. extends c (stateOf out) \<and>
         (\<forall>c2 c1. out = Return (- 1) c2 \<and> prefix (tokens c2) (tokens c1) \<and>
              channel c1 = channel c \<and> fetchedEOF c1 \<longrightarrow>
              ntoc_loop c1 i = Some (Return (- 1) c1))", OF _ assms])
  fix ntoc c i out
  assume IH: "\<And>c i out. ntoc c i = Some out \<Longrightarrow> extends c (stateOf out) \<and>
         (\<forall>c2 c1. out = Return (- 1) c2 \<and> prefix (tokens c2) (tokens c1) \<and>
              channel c1 = channel c \<and> fetchedEOF c1 \<longrightarrow>
              ntoc_loop c1 i = Some (Return (- 1) c1))"
    and body: "(case tokenAt c i of
        Inl e \<Rightarrow> Some (Panic e c)
      | Inr token \<Rightarrow>
          if GetChannel token \<noteq> channel c then
            (if GetTokenType token = TokenEOF then Some (Return (- 1) c)
             else ntoc (snd (Sync (i + 1) c)) (i + 1))
          else Some (Return i c)) = Some out"
  show "extends c (stateOf out) \<and>
         (\<forall>c2 c1. out = Return (- 1) c2 \<and> prefix (tokens c2) (tokens c1) \<and>
              channel c1 = channel c \<and> fetchedEOF c1 \<longrightarrow>
              ntoc_loop c1 i = Some (Return (- 1) c1))"
  proof (cases "tokenAt c i")
    case (Inl e)
    with body show ?thesis by auto
  next
    case (Inr token)
    then have rng: "0 \<le> i" "i < int (length (tokens c))" and tok: "token = tokens c ! nat i"
      by (auto simp: tokenAt_def Size_def split: if_splits)
    have same: "tokenAt c1 i = Inr token" if "prefix (tokens c) (tokens c1)" for c1
      using that rng tok by (auto simp: tokenAt_def Size_def prefix_def nth_append)
    show ?thesis
    proof (cases "GetChannel token \<noteq> channel c")
      case False
      with Inr body rng show ?thesis by auto
    next
      case off: True
      show ?thesis
      proof (cases "GetTokenType token = TokenEOF")
        case True
        have "ntoc_loop c1 i = Some (Return (- 1) c1)"
          if "prefix (tokens c) (tokens c1)" "channel c1 = channel c" for c1
          using same [OF that(1)] that(2) off True by (subst ntoc_loop.simps) simp
        with Inr body off True show ?thesis by auto
      next
        case False
        let ?cs = "snd (Sync (i + 1) c)"
        from Inr body off False have run: "ntoc ?cs (i + 1) = Some out" by simp
        have es: "extends c ?cs" by (rule Sync_extends)
        from IH [OF run] have ex: "extends ?cs (stateOf out)"
          and re: "\<And>c2 c1. out = Return (- 1) c2 \<Longrightarrow> prefix (tokens c2) (tokens c1) \<Longrightarrow>
              channel c1 = channel ?cs \<Longrightarrow> fetchedEOF c1 \<Longrightarrow>
              ntoc_loop c1 (i + 1) = Some (Return (- 1) c1)"
          by blast+
        have ext: "extends c (stateOf out)" using es ex by (rule extends_trans)
        have "ntoc_loop c1 i = Some (Return (- 1) c1)"
          if o: "out = Return (- 1) c2" and p: "prefix (tokens c2) (tokens c1)"
            and ch: "channel c1 = channel c" and f: "fetchedEOF c1" for c2 c1
        proof -
          have "prefix (tokens c) (tokens c2)" using ext o by (simp add: extends_def)
          from this p have pc: "prefix (tokens c) (tokens c1)" by (rule prefix_order.trans)
          have "channel c1 = channel ?cs" using es ch by (simp add: extends_def)
          from re [OF o p this f] have "ntoc_loop c1 (i + 1) = Some (Return (- 1) c1)" .
          with same [OF pc] ch off False Sync_fetched [OF f, of "i + 1"] show ?thesis
            by (subst ntoc_loop.simps) simp
        qed
        with ext show ?thesis by blast
      qed
    qed
  qed
qed

lemma NextTokenOnChannel_rescan:
  assumes "NextTokenOnChannel i ch c = Some (Return (- 1) c2)"
    and "prefix (tokens c2) (tokens c1)" and "channel c1 = channel c" and "fetchedEOF c1"
    and "fetchedEOF c2 \<longrightarrow> tokens c1 = tokens c2"
  shows "NextTokenOnChannel i ch' c1 = Some (Return (- 1) c1)"
proof -
  let ?cs = "snd (Sync i c)"
  have s1: "snd (Sync i c1) = c1" using assms(4) by (rule Sync_fetched)
  show ?thesis
  proof (cases "i \<ge> int (length (tokens ?cs))")
    case True
    with assms(1) have c2: "c2 = ?cs" by (simp add: NextTokenOnChannel_def Let_def)
    have "\<not> fst (Sync i c)" using Sync_true [of i c] True by auto
    from Sync_false [OF this] c2 assms(5) True have "i \<ge> int (length (tokens c1))" by simp
    with s1 show ?thesis by (simp add: NextTokenOnChannel_def Let_def)
  next
    case False
    with assms(1) have run: "ntoc_loop ?cs i = Some (Return (- 1) c2)"
      by (simp add: NextTokenOnChannel_def Let_def)
    have chs: "channel c1 = channel ?cs"
      using Sync_extends [of c i] assms(3) by (simp add: extends_def)
    from ntoc_loop_rescan [OF run] assms(2,4) chs
    have r: "ntoc_loop c1 i = Some (Return (- 1) c1)" by auto
    have "prefix (tokens ?cs) (tokens c2)"
      using ntoc_loop_extends [OF run] by (simp add: extends_def)
    from this assms(2) have "prefix (tokens ?cs) (tokens c1)" by (rule prefix_order.trans)
    then have "length (tokens ?cs) \<le> length (tokens c1)" by (rule prefix_length_le)
    with False have "\<not> i \<ge> int (length (tokens c1))" by simp
    with r s1 show ?thesis by (simp add: NextTokenOnChannel_def Let_def)
  qed
qed

lemma FillD:
  "Fill c = Some (Return () c1) \<Longrightarrow> \<exists>c0. lazyInit c = Some (Return () c0) \<and> fill_loop c0 = Some c1"
  by (auto simp: Fill_def bnd_def split: option.splits outcome.splits)



lemma fetch_loop_consumes:
  "\<not> fetchedEOF c \<Longrightarrow> exhaustsWithin m c \<Longrightarrow> i \<le> n \<Longrightarrow>
     \<not> fetchedEOF (snd (fetch_loop n i c)) \<Longrightarrow>
     nat (n - i) < m \<and> exhaustsWithin (m - nat (n - i)) (snd (fetch_loop n i c))"
proof (induction n i c arbitrary: m rule: fetch_loop_induct)
  case (step n i c)
  from step.prems(1,2) have m0: "0 < m" by (cases m) (auto simp: exhaustsWithin_def)
  show ?case
  proof (cases "i < n")
    case False
    then have "fetch_loop n i c = (n, c)" by (simp add: fetch_loop_unfold [of n i c])
    with False step.prems m0 show ?thesis by simp
  next
    case True
    show ?thesis
    proof (cases "isEOF (shd (tokenSource c))")
      case True
      with \<open>i < n\<close> step.prems(4) show ?thesis by (simp add: fetch_loop_unfold [of n i c])
    next
      case False
      have unf: "fetch_loop n i c = fetch_loop n (i + 1) (appendNext c)"
        using True False by (simp add: fetch_loop_unfold [of n i c])
      have nf: "\<not> fetchedEOF (appendNext c)" using step.prems(1) by (simp add: appendNext_def)
      from exhausts_appendNext [OF step.prems(2) step.prems(1) False]
      have e: "exhaustsWithin (m - 1) (appendNext c)" by simp
      from step.IH [OF True False nf e] True step.prems(4) unf
      have "nat (n - (i + 1)) < m - 1"
        and "exhaustsWithin (m - 1 - nat (n - (i + 1))) (snd (fetch_loop n i c))"
        by simp_all
      moreover have "nat (n - i) = Suc (nat (n - (i + 1)))" using True by simp
      ultimately show ?thesis by simp
    qed
  qed
qed

lemma fill_loop_total: "exhaustsWithin m c \<Longrightarrow> \<exists>c'. fill_loop c = Some c'"
proof (induction m arbitrary: c rule: less_induct)
  case (less m)
  show ?case
  proof (cases "fst (fetch 1000 c) = 1000")
    case False
    then show ?thesis by (subst fill_loop.simps) simp
  next
    case True
    then have nf: "\<not> fetchedEOF c" by (auto simp: fetch_def)
    have unf: "fill_loop c = fill_loop (snd (fetch 1000 c))"
      using True by (subst fill_loop.simps) simp
    show ?thesis
    proof (cases "fetchedEOF (snd (fetch 1000 c))")
      case True
      with unf fill_loop_fetched show ?thesis by simp
    next
      case False
      with fetch_loop_consumes [OF nf less.prems, of 0 1000] nf
      have "m - 1000 < m" and "exhaustsWithin (m - 1000) (snd (fetch 1000 c))"
        by (simp_all add: fetch_def)
      from less.IH [OF this] unf show ?thesis by simp
    qed
  qed
qed

lemma Fill_total:
  assumes "eofLast c" and "exhaustsWithin m c"
  shows "\<exists>c1. Fill c = Some (Return () c1)"
proof -
  from lazyInit_total [OF assms] obtain c0 where li: "lazyInit c = Some (Return () c0)"
    and ex: "extends c c0" by blast
  from ex assms(2) have "exhaustsWithin m c0" by (simp add: extends_def)
  from fill_loop_total [OF this] li show ?thesis by (auto simp: Fill_def bnd_def)
qed

section \<open>Text of a filled stream\<close>

lemma GetTextFromInterval_filled:
  assumes "lazyInit c = Some (Return () c1)" and "Fill c1 = Some (Return () c2)"
  shows "GetTextFromInterval (Some (start, stop)) c =
           Some (Return
             (if start < 0 \<or> stop < 0 then []
              else concat (map GetText (takeWhile (\<lambda>t. \<not> isEOF t)
                     (slice start (min stop (Size c2 - 1)) c2)))) c2) \<and>
         GetTextFromInterval None c = GetTextFromInterval (Some (0, Size c2 - 1)) c"
proof -
  define stop' where "stop' = (if stop \<ge> int (length (tokens c2)) then int (length (tokens c2)) - 1
      else stop)"
  have m: "min stop (Size c2 - 1) = stop'"
    by (simp add: Size_def min_def stop'_def)
  have tl: "text_loop start stop' [] c2 =
          Inr (concat (map GetText (takeWhile (\<lambda>t. \<not> isEOF t) (slice start stop' c2))))"
    if "0 \<le> start"
    using text_loop_spec [of start stop' c2 "[]"] that by (simp add: stop'_def)
  have "GetTextFromInterval (Some (start, stop)) c =
      (if start < 0 \<or> stop < 0 then Some (Return [] c2) else lift (text_loop start stop' [] c2) c2)"
    using assms by (simp add: GetTextFromInterval_def bnd_def Let_def stop'_def)
  moreover have "GetTextFromInterval None c = GetTextFromInterval (Some (0, Size c2 - 1)) c"
    using assms by (simp add: GetTextFromInterval_def bnd_def Let_def Size_def)
  ultimately show ?thesis
    unfolding m using tl by (simp add: lift_def)
qed

section \<open>The end-of-stream token enters the buffer once\<close>


lemma fetch_fetched: "fetchedEOF c \<Longrightarrow> fetch n c = (0, c)"
  by (simp add: fetch_def)

lemma fetch_nonempty: "fetchedEOF (snd (fetch n c)) \<Longrightarrow> tokens c \<noteq> [] \<or> \<not> fetchedEOF c
    \<Longrightarrow> tokens (snd (fetch n c)) \<noteq> []"
proof (cases "fetchedEOF c")
  case True
  assume "tokens c \<noteq> [] \<or> \<not> fetchedEOF c"
  with True show ?thesis by (simp add: fetch_def)
next
  case False
  assume f: "fetchedEOF (snd (fetch n c))"
  show ?thesis
  proof (cases "0 \<le> n")
    case True
    obtain r c' where r: "fetch_loop n 0 c = (r, c')" by (cases "fetch_loop n 0 c")
    from fetch_loop_result [OF False True r] f False r show ?thesis by (simp add: fetch_def)
  next
    case False
    with \<open>\<not> fetchedEOF c\<close> f show ?thesis
      by (simp add: fetch_def fetch_loop_unfold [of n 0 c])
  qed
qed

lemma fetches_invariant:
  "eofLast c \<Longrightarrow> (fetchedEOF c \<longrightarrow> tokens c \<noteq> []) \<Longrightarrow>
     eofLast (fetches ns c) \<and> (fetchedEOF (fetches ns c) \<longrightarrow> tokens (fetches ns c) \<noteq> [])"
proof (induction ns arbitrary: c)
  case Nil
  then show ?case by simp
next
  case (Cons n ns)
  have "eofLast (snd (fetch n c))"
    using fetch_extends [of c n] Cons.prems(1) by (simp add: extends_def)
  moreover have "fetchedEOF (snd (fetch n c)) \<longrightarrow> tokens (snd (fetch n c)) \<noteq> []"
    using fetch_nonempty [of n c] Cons.prems(2) by blast
  ultimately show ?case using Cons.IH by simp
qed

lemma eofLast_single:
  "eofLast c \<Longrightarrow> fetchedEOF c \<Longrightarrow> tokens c \<noteq> [] \<Longrightarrow>
     isEOF (last (tokens c)) \<and> length (filter isEOF (tokens c)) = 1"
proof -
  assume a: "eofLast c" "fetchedEOF c" "tokens c \<noteq> []"
  then have l: "isEOF (last (tokens c))" and b: "list_all (\<lambda>t. \<not> isEOF t) (butlast (tokens c))"
    by (simp_all add: eofLast_def)
  have "filter isEOF (butlast (tokens c)) = []"
    using b by (simp add: list_all_iff filter_empty_conv)
  moreover have "tokens c = butlast (tokens c) @ [last (tokens c)]"
    using a(3) by simp
  ultimately have "filter isEOF (tokens c) = [last (tokens c)]"
    using l by (metis append_Nil filter.simps(1) filter.simps(2) filter_append)
  with l show ?thesis by simp
qed

lemma eofLast_flag: "eofLast c \<Longrightarrow> fetchedEOF c \<longrightarrow> tokens c \<noteq> [] \<Longrightarrow>
    fetchedEOF c \<longleftrightarrow> list_ex isEOF (tokens c)"
proof (cases "fetchedEOF c")
  case True
  assume "eofLast c" "fetchedEOF c \<longrightarrow> tokens c \<noteq> []"
  with True have "isEOF (last (tokens c))" "tokens c \<noteq> []" by (simp_all add: eofLast_def)
  then have "list_ex isEOF (tokens c)" by (auto simp: list_ex_iff)
  with True show ?thesis by simp
next
  case False
  assume "eofLast c"
  with False show ?thesis by (auto simp: eofLast_def list_all_iff list_ex_iff)
qed

lemma fetch_loop_reaches_eof:
  "\<not> fetchedEOF c \<Longrightarrow> exhaustsWithin m c \<Longrightarrow> int m \<le> n - i \<Longrightarrow> fetchedEOF (snd (fetch_loop n i c))"
proof (induction n i c arbitrary: m rule: fetch_loop_induct)
  case (step n i c)
  from step.prems have "0 < m"
    by (cases m) (auto simp: exhaustsWithin_def)
  with step.prems have lt: "i < n" by simp
  show ?case
  proof (cases "isEOF (shd (tokenSource c))")
    case True
    with lt show ?thesis by (subst fetch_loop_unfold) simp
  next
    case False
    from exhausts_appendNext [OF step.prems(2) step.prems(1) False]
    have e: "exhaustsWithin (m - 1) (appendNext c)" and "0 < m" by simp_all
    have nf: "\<not> fetchedEOF (appendNext c)" using step.prems(1) by (simp add: appendNext_def)
    have "int (m - 1) \<le> n - (i + 1)" using step.prems(3) \<open>0 < m\<close> by simp
    from step.IH [OF lt False nf e this] lt False show ?thesis
      by (subst fetch_loop_unfold) simp
  qed
qed

text \<open>
  C3. Start from a new stream over any source and call \<^verbatim>\<open>fetch\<close> any number of times, with
  any arguments. The flag \<^verbatim>\<open>fetchedEOF\<close> is set exactly when the buffer holds an
  end-of-stream token; from then on the buffer is not empty, its last element is an
  end-of-stream token, it holds exactly one such token, and every further \<^verbatim>\<open>fetch(n)\<close>
  returns 0 and changes nothing. Exhaustion is reached: if the source produces an
  end-of-stream token among its next \<open>m\<close> tokens, \<^verbatim>\<open>fetch(m)\<close> sets the flag.
\<close>

theorem fetch_until_exhaustion:
  assumes "c = fetches ns (NewCommonTokenStream src ch)"
  shows "(fetchedEOF c \<longleftrightarrow> list_ex isEOF (tokens c)) \<and>
         (fetchedEOF c \<longrightarrow>
            tokens c \<noteq> [] \<and> isEOF (last (tokens c)) \<and> length (filter isEOF (tokens c)) = 1 \<and>
            fetch n c = (0, c)) \<and>
         (exhaustsWithin m c \<longrightarrow> fetchedEOF (snd (fetch (int m) c)))"
proof -
  have "eofLast (NewCommonTokenStream src ch)"
    and "fetchedEOF (NewCommonTokenStream src ch) \<longrightarrow> tokens (NewCommonTokenStream src ch) \<noteq> []"
    by (simp_all add: NewCommonTokenStream_def eofLast_def)
  from fetches_invariant [OF this, of ns]
  have inv: "eofLast c" "fetchedEOF c \<longrightarrow> tokens c \<noteq> []"
    using assms by simp_all
  have "exhaustsWithin m c \<longrightarrow> fetchedEOF (snd (fetch (int m) c))"
    using fetch_loop_reaches_eof [of c m "int m" 0] by (simp add: fetch_def)
  then show ?thesis
    using inv eofLast_flag [OF inv] eofLast_single [of c] fetch_fetched [of c n] by blast
qed

theorem fetch_until_exhaustion_witness:
  "fetchedEOF (fetches [2, 0, 5, 1] (NewCommonTokenStream abcSource 0)) \<and>
   map GetText (tokens (fetches [2, 0, 5, 1] (NewCommonTokenStream abcSource 0))) =
     [''a'', ''b'', ''c'', ''<EOF>''] \<and>
   isEOF (last (tokens (fetches [2, 0, 5, 1] (NewCommonTokenStream abcSource 0)))) \<and>
   length (filter isEOF (tokens (fetches [2, 0, 5, 1] (NewCommonTokenStream abcSource 0)))) = 1 \<and>
   fetch 7 (fetches [2, 0, 5, 1] (NewCommonTokenStream abcSource 0)) =
     (0, fetches [2, 0, 5, 1] (NewCommonTokenStream abcSource 0))"
proof -
  have f: "fetchedEOF (fetches [2, 0, 5, 1] (NewCommonTokenStream abcSource 0))"
    by (simp add: NewCommonTokenStream_def abcSource_def eofToken_def lexerToken_def fetch_def
        fetch_loop.simps TokenEOF_def LexerDefaultTokenChannel_def Let_def)
  have t: "map GetText (tokens (fetches [2, 0, 5, 1] (NewCommonTokenStream abcSource 0))) =
     [''a'', ''b'', ''c'', ''<EOF>'']"
    by (simp add: NewCommonTokenStream_def abcSource_def eofToken_def lexerToken_def fetch_def
        fetch_loop.simps TokenEOF_def LexerDefaultTokenChannel_def Let_def)
  from f t fetch_until_exhaustion [OF refl, of "[2, 0, 5, 1]" abcSource 0 7 0]
  show ?thesis by blast
qed

section \<open>Evaluating the model on the examples\<close>

text \<open>The definitions a run of the model on a concrete stream unfolds.\<close>


lemmas example_defs =
  NewCommonTokenStream_def abcSource_def hiddenSource_def eofOnlySource_def eofToken_def
  lexerToken_def TokenEOF_def LexerDefaultTokenChannel_def

lemmas run_defs =
  lazyInit_def setupStream_def adjustSeekIndex_def NextTokenOnChannel_def Sync_def fetch_def
  bnd_def lift_def tokenAt_def Size_def Let_def fetch_loop.simps ntoc_loop.simps

section \<open>Reads outside the buffer\<close>

text \<open>
  C1. The claim fails on the code. A stream that filters channel 1 over a source whose tokens
  (and end-of-stream token) are all on the default channel finds no token on its channel:
  lazy initialisation leaves the cursor at \<open>-1\<close>, and \<^verbatim>\<open>LT(1)\<close> reads \<^verbatim>\<open>c.tokens[-1]\<close>.
  The call panics with Go's index-out-of-range error instead of returning the end-of-stream token.
\<close>

theorem LT_reads_below_buffer:
  "\<exists>c'. LT 1 (NewCommonTokenStream abcSource 1) = Some (Panic IndexOutOfRange c') \<and>
        index c' = - 1 \<and> map GetText (tokens c') = [''a'', ''b'', ''c'', ''<EOF>'']"
  by (simp add: LT_def LT_loop.simps example_defs run_defs)

text \<open>
  C6, as stated, fails: on a new stream over the source a, b, c, \<^verbatim>\<open>Get(5)\<close> panics with the
  index-out-of-range error; nothing is clamped and no absent result is returned.
\<close>

theorem Get_beyond_buffer_counterexample:
  "\<exists>c'. Get 5 (NewCommonTokenStream abcSource 0) = Some (Panic IndexOutOfRange c') \<and>
        length (tokens c') = 1"
  by (simp add: Get_def example_defs run_defs)

text \<open>
  C6, amended. \<^verbatim>\<open>Get\<close> initialises the stream lazily and then reads \<^verbatim>\<open>c.tokens[index]\<close>
  unguarded: for every index at or beyond the length the buffer has after lazy initialisation
  the call panics with the index-out-of-range error, in the state that initialisation reached.
\<close>

theorem Get_beyond_buffer_panics:
  assumes "lazyInit c = Some (Return () c1)" and "int (length (tokens c1)) \<le> i"
  shows "Get i c = Some (Panic IndexOutOfRange c1)"
  using assms by (simp add: Get_def bnd_def lift_def tokenAt_def Size_def)

theorem Get_beyond_buffer_panics_witness:
  "\<exists>c1. lazyInit (NewCommonTokenStream abcSource 0) = Some (Return () c1) \<and>
         int (length (tokens c1)) \<le> 1 \<and>
         Get 1 (NewCommonTokenStream abcSource 0) = Some (Panic IndexOutOfRange c1)"
proof -
  obtain c1 where h: "lazyInit (NewCommonTokenStream abcSource 0) = Some (Return () c1)"
    and l: "int (length (tokens c1)) \<le> 1"
    by (simp add: example_defs run_defs)
  from Get_beyond_buffer_panics [OF h l] h l show ?thesis by blast
qed


section \<open>Hidden tokens\<close>

text \<open>
  C7. The input has five tokens with channels default, hidden (1), hidden (1), default and the
  end-of-stream token. On the filled stream \<^verbatim>\<open>getHiddenTokensToRight(0, -1)\<close> returns exactly the
  tokens buffered at 1 and 2, and \<^verbatim>\<open>getHiddenTokensToLeft(3, -1)\<close> returns the same two; the
  same holds when the first call is made on the new stream and the second on the state the
  first leaves. In general \<^verbatim>\<open>filterForChannel\<close>, on a range inside the buffer, returns the
  tokens of the range that the filter of the specification admits, in order (nil when there
  are none): with the requested channel \<open>-1\<close> those off the default channel, otherwise those
  whose channel is the requested one.
\<close>

theorem hidden_tokens_scenario:
  "(\<exists>c1. Fill (NewCommonTokenStream hiddenSource LexerDefaultTokenChannel) = Some (Return () c1) \<and>
      map GetChannel (tokens c1) = [LexerDefaultTokenChannel, 1, 1, LexerDefaultTokenChannel,
        LexerDefaultTokenChannel] \<and>
      map isEOF (tokens c1) = [False, False, False, False, True] \<and>
      getHiddenTokensToRight 0 (- 1) c1 = Some (Return (Some [tokens c1 ! 1, tokens c1 ! 2]) c1) \<and>
      getHiddenTokensToLeft 3 (- 1) c1 = Some (Return (Some [tokens c1 ! 1, tokens c1 ! 2]) c1)) \<and>
   (\<exists>c2. getHiddenTokensToRight 0 (- 1) (NewCommonTokenStream hiddenSource LexerDefaultTokenChannel)
        = Some (Return (Some [tokens c2 ! 1, tokens c2 ! 2]) c2) \<and>
      map GetChannel (tokens c2) = [LexerDefaultTokenChannel, 1, 1, LexerDefaultTokenChannel] \<and>
      getHiddenTokensToLeft 3 (- 1) c2 = Some (Return (Some [tokens c2 ! 1, tokens c2 ! 2]) c2)) \<and>
   (0 \<le> left \<and> right < int (length (tokens c)) \<longrightarrow>
      filterForChannel left right ch c =
        Inr (if filter (admitted ch) (slice left right c) = [] then None
             else Some (filter (admitted ch) (slice left right c))))"
proof (intro conjI impI)
  show "\<exists>c1. Fill (NewCommonTokenStream hiddenSource LexerDefaultTokenChannel) = Some (Return () c1) \<and>
      map GetChannel (tokens c1) = [LexerDefaultTokenChannel, 1, 1, LexerDefaultTokenChannel,
        LexerDefaultTokenChannel] \<and>
      map isEOF (tokens c1) = [False, False, False, False, True] \<and>
      getHiddenTokensToRight 0 (- 1) c1 = Some (Return (Some [tokens c1 ! 1, tokens c1 ! 2]) c1) \<and>
      getHiddenTokensToLeft 3 (- 1) c1 = Some (Return (Some [tokens c1 ! 1, tokens c1 ! 2]) c1)"
    by (simp add: Fill_def fill_loop.simps getHiddenTokensToRight_def getHiddenTokensToLeft_def
        filterForChannel_def filter_loop.simps previousTokenOnChannel.simps isEOF_def
        example_defs run_defs)
  show "\<exists>c2. getHiddenTokensToRight 0 (- 1) (NewCommonTokenStream hiddenSource LexerDefaultTokenChannel)
        = Some (Return (Some [tokens c2 ! 1, tokens c2 ! 2]) c2) \<and>
      map GetChannel (tokens c2) = [LexerDefaultTokenChannel, 1, 1, LexerDefaultTokenChannel] \<and>
      getHiddenTokensToLeft 3 (- 1) c2 = Some (Return (Some [tokens c2 ! 1, tokens c2 ! 2]) c2)"
    by (simp add: getHiddenTokensToRight_def getHiddenTokensToLeft_def
        filterForChannel_def filter_loop.simps previousTokenOnChannel.simps isEOF_def
        example_defs run_defs)
  assume "0 \<le> left \<and> right < int (length (tokens c))"
  then show "filterForChannel left right ch c =
        Inr (if filter (admitted ch) (slice left right c) = [] then None
             else Some (filter (admitted ch) (slice left right c)))"
    by (simp add: filterForChannel_def filter_loop_spec)
qed

theorem hidden_tokens_scenario_witness:
  "filterForChannel 1 3 (- 1)
     (fetches [5] (NewCommonTokenStream hiddenSource LexerDefaultTokenChannel)) =
   Inr (Some [(lexerToken 2 1 '' '')\<lparr>GetTokenIndex := 1\<rparr>, (lexerToken 2 1 '' '')\<lparr>GetTokenIndex := 2\<rparr>])"
proof -
  let ?c = "fetches [5] (NewCommonTokenStream hiddenSource LexerDefaultTokenChannel)"
  have t: "tokens ?c =
    [(lexerToken 1 LexerDefaultTokenChannel ''x'')\<lparr>GetTokenIndex := 0\<rparr>,
     (lexerToken 2 1 '' '')\<lparr>GetTokenIndex := 1\<rparr>, (lexerToken 2 1 '' '')\<lparr>GetTokenIndex := 2\<rparr>,
     (lexerToken 1 LexerDefaultTokenChannel ''y'')\<lparr>GetTokenIndex := 3\<rparr>,
     eofToken\<lparr>GetTokenIndex := 4\<rparr>]"
    by (simp add: example_defs run_defs)
  have h: "0 \<le> (1::int) \<and> 3 < int (length (tokens ?c))" unfolding t by simp
  have s: "slice 1 3 ?c = [(lexerToken 2 1 '' '')\<lparr>GetTokenIndex := 1\<rparr>,
     (lexerToken 2 1 '' '')\<lparr>GetTokenIndex := 2\<rparr>,
     (lexerToken 1 LexerDefaultTokenChannel ''y'')\<lparr>GetTokenIndex := 3\<rparr>]"
    unfolding slice_def t by simp
  from hidden_tokens_scenario [of 1 3 ?c "- 1"] h
  have "filterForChannel 1 3 (- 1) ?c =
        Inr (if filter (admitted (- 1)) (slice 1 3 ?c) = [] then None
             else Some (filter (admitted (- 1)) (slice 1 3 ?c)))"
    by blast
  then show ?thesis
    unfolding s by (simp add: admitted_def lexerToken_def LexerDefaultTokenChannel_def)
qed


section \<open>The text of an interval\<close>

text \<open>
  C8. On a stream whose flag and buffer agree and whose source produces an end-of-stream
  token, lazy initialisation and \<^verbatim>\<open>Fill\<close> return, leaving the filled stream \<open>c2\<close>, and
  \<^verbatim>\<open>GetTextFromInterval(start, stop)\<close> returns in state \<open>c2\<close>: the empty string when \<open>start\<close>
  or \<open>stop\<close> is negative, otherwise the texts, concatenated in order, of the tokens at
  \<open>start..min stop (size - 1)\<close> up to and excluding the first end-of-stream token. The nil
  interval stands for \<open>(0, size - 1)\<close>. The witness is the input a, b, c on the default channel:
  the filled buffer has size 4 and \<^verbatim>\<open>GetTextFromInterval(0, size - 1)\<close> returns \<open>abc\<close>.
\<close>

theorem GetTextFromInterval_spec:
  assumes "eofLast c" and "exhaustsWithin m c"
  shows "\<exists>c1 c2. lazyInit c = Some (Return () c1) \<and> Fill c1 = Some (Return () c2) \<and>
           GetTextFromInterval (Some (start, stop)) c =
             Some (Return
               (if start < 0 \<or> stop < 0 then []
                else concat (map GetText (takeWhile (\<lambda>t. \<not> isEOF t)
                       (slice start (min stop (Size c2 - 1)) c2)))) c2) \<and>
           GetTextFromInterval None c = GetTextFromInterval (Some (0, Size c2 - 1)) c"
proof -
  from lazyInit_total [OF assms] obtain c1 where li: "lazyInit c = Some (Return () c1)"
    and ex: "extends c c1" by blast
  from ex assms have "eofLast c1" and "exhaustsWithin m c1" by (simp_all add: extends_def)
  from Fill_total [OF this] obtain c2 where fi: "Fill c1 = Some (Return () c2)" by blast
  from GetTextFromInterval_filled [OF li fi] li fi show ?thesis by blast
qed

theorem GetTextFromInterval_spec_witness:
  "\<exists>c2. Fill (NewCommonTokenStream abcSource LexerDefaultTokenChannel) = Some (Return () c2) \<and>
     Size c2 = 4 \<and>
     GetTextFromInterval (Some (0, Size c2 - 1))
       (NewCommonTokenStream abcSource LexerDefaultTokenChannel) = Some (Return ''abc'' c2) \<and>
     GetAllText (NewCommonTokenStream abcSource LexerDefaultTokenChannel) = Some (Return ''abc'' c2)"
proof -
  let ?c = "NewCommonTokenStream abcSource LexerDefaultTokenChannel"
  have e: "eofLast ?c" and x: "exhaustsWithin 4 ?c"
    by (simp_all add: eofLast_def exhaustsWithin_def isEOF_def eval_nat_numeral example_defs)
  from GetTextFromInterval_spec [OF e x, of 0 3]
  obtain c1 c2 where h1: "lazyInit ?c = Some (Return () c1)"
    and h2: "Fill c1 = Some (Return () c2)"
    and g: "GetTextFromInterval (Some (0, 3)) ?c =
             Some (Return (concat (map GetText (takeWhile (\<lambda>t. \<not> isEOF t)
                       (slice 0 (min 3 (Size c2 - 1)) c2)))) c2)"
    and n: "GetTextFromInterval None ?c = GetTextFromInterval (Some (0, Size c2 - 1)) ?c"
    by auto
  from h1 have t1: "c1 = \<lparr>tokenSource = [lexerToken 1 LexerDefaultTokenChannel ''b'',
        lexerToken 1 LexerDefaultTokenChannel ''c''] @- sconst eofToken,
      tokens = [(lexerToken 1 LexerDefaultTokenChannel ''a'')\<lparr>GetTokenIndex := 0\<rparr>],
      index = 0, fetchedEOF = False, channel = LexerDefaultTokenChannel\<rparr>"
    by (simp add: example_defs run_defs)
  from h2 have t2: "tokens c2 = [(lexerToken 1 LexerDefaultTokenChannel ''a'')\<lparr>GetTokenIndex := 0\<rparr>,
      (lexerToken 1 LexerDefaultTokenChannel ''b'')\<lparr>GetTokenIndex := 1\<rparr>,
      (lexerToken 1 LexerDefaultTokenChannel ''c'')\<lparr>GetTokenIndex := 2\<rparr>,
      eofToken\<lparr>GetTokenIndex := 3\<rparr>]"
    unfolding t1 by (auto simp: Fill_def fill_loop.simps example_defs run_defs)
  have f: "Fill ?c = Some (Return () c2)"
    using h2 unfolding t1 by (simp add: Fill_def fill_loop.simps example_defs run_defs)
  have sz: "Size c2 = 4" by (simp add: Size_def t2)
  have sl: "slice 0 (min 3 (Size c2 - 1)) c2 = tokens c2"
    by (simp add: slice_def sz t2)
  have "concat (map GetText (takeWhile (\<lambda>t. \<not> isEOF t) (tokens c2))) = ''abc''"
    unfolding t2 by (simp add: isEOF_def eofToken_def lexerToken_def TokenEOF_def)
  with g n sl sz
  have "GetTextFromInterval (Some (0, Size c2 - 1)) ?c = Some (Return ''abc'' c2)"
    and "GetTextFromInterval None ?c = Some (Return ''abc'' c2)"
    by simp_all
  with f sz show ?thesis by (auto simp: GetAllText_def)
qed

section \<open>Buffer positions are stable\<close>


lemma indexed_nth: "indexed c \<Longrightarrow> i < length (tokens c) \<Longrightarrow> GetTokenIndex (tokens c ! i) = int i"
proof -
  assume a: "indexed c" and b: "i < length (tokens c)"
  have "GetTokenIndex (tokens c ! i) = map GetTokenIndex (tokens c) ! i" using b by simp
  also have "\<dots> = map int [0..<length (tokens c)] ! i" using a by (simp add: indexed_def)
  also have "\<dots> = int i" using b by simp
  finally show ?thesis .
qed

lemma extends_nth:
  "extends c c' \<Longrightarrow> i < length (tokens c) \<Longrightarrow> i < length (tokens c') \<and> tokens c' ! i = tokens c ! i"
  by (auto simp: extends_def prefix_def nth_append)

text \<open>
  C4. Let \<open>c\<close> be any state reached from a new stream by a sequence of calls (\<^verbatim>\<open>fetch\<close>,
  \<^verbatim>\<open>Sync\<close>, \<^verbatim>\<open>Fill\<close>, seeking, consuming, lookahead, raw access, hidden-token and text
  queries; returning or panicking), and \<open>c'\<close> any state reached from \<open>c\<close> by a further
  sequence. A position \<open>i\<close> filled in \<open>c\<close> holds a token whose index is \<open>i\<close>, and in \<open>c'\<close>
  the position is still filled, with the same token.
\<close>

theorem token_indices_stable:
  assumes "performAll xs (NewCommonTokenStream src ch) = Some c"
    and "performAll ys c = Some c'"
    and "i < length (tokens c)"
  shows "GetTokenIndex (tokens c ! i) = int i \<and> i < length (tokens c') \<and>
         tokens c' ! i = tokens c ! i"
proof -
  have "indexed (NewCommonTokenStream src ch)"
    by (simp add: indexed_def NewCommonTokenStream_def)
  with performAll_extends [OF assms(1)] have "indexed c" by (simp add: extends_def)
  from indexed_nth [OF this assms(3)] extends_nth [OF performAll_extends [OF assms(2)] assms(3)]
  show ?thesis by simp
qed

theorem token_indices_stable_witness:
  "\<exists>c c'. performAll [OpSeek 1] (NewCommonTokenStream hiddenSource LexerDefaultTokenChannel) = Some c \<and>
     performAll [OpConsume, OpFill, OpLT 2] c = Some c' \<and>
     length (tokens c) = 4 \<and> length (tokens c') = 5 \<and>
     GetTokenIndex (tokens c ! 2) = 2 \<and> tokens c' ! 2 = tokens c ! 2"
proof -
  obtain c where h1: "performAll [OpSeek 1] (NewCommonTokenStream hiddenSource LexerDefaultTokenChannel)
      = Some c"
    and c: "c = \<lparr>tokenSource = sconst eofToken,
      tokens = [(lexerToken 1 LexerDefaultTokenChannel ''x'')\<lparr>GetTokenIndex := 0\<rparr>,
        (lexerToken 2 1 '' '')\<lparr>GetTokenIndex := 1\<rparr>, (lexerToken 2 1 '' '')\<lparr>GetTokenIndex := 2\<rparr>,
        (lexerToken 1 LexerDefaultTokenChannel ''y'')\<lparr>GetTokenIndex := 3\<rparr>],
      index = 3, fetchedEOF = False, channel = LexerDefaultTokenChannel\<rparr>"
    by (simp add: after_def Seek_def example_defs run_defs)
  obtain c' where h2: "performAll [OpConsume, OpFill, OpLT 2] c = Some c'"
    and l': "length (tokens c') = 5"
    unfolding c
    by (simp add: after_def Consume_def LA_def LT_def LT_loop.simps Fill_def fill_loop.simps
        example_defs run_defs)
  have l: "length (tokens c) = 4" by (simp add: c)
  then have "2 < length (tokens c)" by simp
  from token_indices_stable [OF h1 h2 this] h1 h2 l l' show ?thesis by auto
qed

section \<open>Seeking\<close>

text \<open>
  C2, as stated for every index, fails: \<^verbatim>\<open>Seek(-1)\<close> passes \<open>-1\<close> to the scan, which reads
  \<^verbatim>\<open>c.tokens[-1]\<close> and panics. (\<open>-1\<close> is a value \<^verbatim>\<open>Index()\<close> itself returns.)
\<close>

theorem Seek_negative_counterexample:
  "\<exists>c'. Seek (- 1) (NewCommonTokenStream abcSource LexerDefaultTokenChannel)
           = Some (Panic IndexOutOfRange c')"
  by (simp add: Seek_def example_defs run_defs)

text \<open>
  C2, amended to indices \<open>i \<ge> 0\<close>. On a stream whose flag and buffer agree and whose source
  produces an end-of-stream token (among its next \<open>m\<close> tokens, for some \<open>m\<close>), \<^verbatim>\<open>Seek(i)\<close>
  returns, and \<^verbatim>\<open>Index()\<close> is then either an index \<open>\<ge> i\<close> inside the buffer whose token is on
  the stream's channel, or \<open>-1\<close>; in the second case the end of the input is buffered and no
  buffered token at \<open>i\<close> or after it is on the stream's channel.
\<close>

theorem Seek_lands_on_channel:
  assumes "eofLast c" and "exhaustsWithin m c" and "0 \<le> i"
  shows "\<exists>c'. Seek i c = Some (Return () c') \<and>
           ((i \<le> Index c' \<and> Index c' < Size c' \<and>
             GetChannel (tokens c' ! nat (Index c')) = channel c') \<or>
            (Index c' = - 1 \<and> fetchedEOF c' \<and>
             list_all (\<lambda>t. GetChannel t \<noteq> channel c') (drop (nat i) (tokens c'))))"
proof -
  from lazyInit_total [OF assms(1,2)]
  obtain c1 where h1: "lazyInit c = Some (Return () c1)" and ex: "extends c c1" by blast
  from ex assms have e1: "eofLast c1" and x1: "exhaustsWithin m c1" by (simp_all add: extends_def)
  from NextTokenOnChannel_total [OF e1 x1 assms(3), of "channel c1"]
  obtain r c2 where run: "NextTokenOnChannel i (channel c1) c1 = Some (Return r c2)"
    and la: "landed i r c2"
    by auto
  have "landed i r (c2\<lparr>index := r\<rparr>)" using la by (simp add: landed_def Size_def)
  moreover have "Seek i c = Some (Return () (c2\<lparr>index := r\<rparr>))"
    using h1 run by (simp add: Seek_def adjustSeekIndex_def bnd_def)
  ultimately show ?thesis by (simp add: landed_def Index_def)
qed

theorem Seek_lands_on_channel_witness:
  "\<exists>c'. Seek 1 (NewCommonTokenStream hiddenSource LexerDefaultTokenChannel) = Some (Return () c') \<and>
     Index c' = 3 \<and> Size c' = 4 \<and> GetChannel (tokens c' ! 3) = channel c' \<and>
     (\<exists>c''. Seek 2 (NewCommonTokenStream abcSource 1) = Some (Return () c'') \<and>
        Index c'' = - 1 \<and> fetchedEOF c'' \<and> Size c'' = 4)"
proof -
  let ?c = "NewCommonTokenStream hiddenSource LexerDefaultTokenChannel"
  have e: "eofLast ?c" by (simp add: eofLast_def NewCommonTokenStream_def)
  have x: "exhaustsWithin 5 ?c"
    by (simp add: exhaustsWithin_def isEOF_def eval_nat_numeral example_defs)
  from Seek_lands_on_channel [OF e x, of 1]
  obtain c' where s: "Seek 1 ?c = Some (Return () c')" by auto
  then have "Index c' = 3 \<and> Size c' = 4 \<and> GetChannel (tokens c' ! 3) = channel c'"
    by (auto simp: Seek_def Index_def example_defs run_defs)
  moreover have "\<exists>c''. Seek 2 (NewCommonTokenStream abcSource 1) = Some (Return () c'') \<and>
        Index c'' = - 1 \<and> fetchedEOF c'' \<and> Size c'' = 4"
    by (simp add: Seek_def Index_def example_defs run_defs)
  ultimately show ?thesis using s by blast
qed

section \<open>Consuming the end-of-stream token\<close>

text \<open>
  C5. On a stream whose flag and buffer agree: \<^verbatim>\<open>Consume\<close> panics with "cannot consume EOF"
  (in state \<open>c1\<close>) exactly when \<^verbatim>\<open>LT(1)\<close> returns an end-of-stream token (in state \<open>c1\<close>); with
  the cursor on a buffered end-of-stream token it panics so, leaving the stream as it was;
  and when it returns, the cursor is the result of \<^verbatim>\<open>adjustSeekIndex(cursor + 1)\<close>, where
  \<open>cursor\<close> is the cursor after lazy initialisation.
\<close>

theorem Consume_spec:
  assumes "eofLast c"
  shows "(Consume c = Some (Panic CannotConsumeEOF c1) \<longleftrightarrow>
            (\<exists>t. LT 1 c = Some (Return (Some t) c1) \<and> isEOF t)) \<and>
         (0 \<le> index c \<and> index c < Size c \<and> isEOF (tokens c ! nat (index c)) \<longrightarrow>
            Consume c = Some (Panic CannotConsumeEOF c)) \<and>
         (Consume c = Some (Return () c') \<longrightarrow>
            (\<exists>c0 r c2. lazyInit c = Some (Return () c0) \<and>
               adjustSeekIndex (index c0 + 1) c0 = Some (Return r c2) \<and> c' = c2\<lparr>index := r\<rparr>))"
proof (intro conjI impI)
  show "Consume c = Some (Panic CannotConsumeEOF c1) \<longleftrightarrow>
            (\<exists>t. LT 1 c = Some (Return (Some t) c1) \<and> isEOF t)"
    by (rule Consume_error_iff [OF assms])
next
  assume a: "0 \<le> index c \<and> index c < Size c \<and> isEOF (tokens c ! nat (index c))"
  then have "LT 1 c = Some (Return (Some (tokens c ! nat (index c))) c)"
    using LT_1_at_cursor [of c] by (simp add: Size_def)
  with a Consume_error_iff [OF assms, of c] show "Consume c = Some (Panic CannotConsumeEOF c)"
    by blast
next
  assume "Consume c = Some (Return () c')"
  from Consume_success [OF assms this]
  show "\<exists>c0 r c2. lazyInit c = Some (Return () c0) \<and>
               adjustSeekIndex (index c0 + 1) c0 = Some (Return r c2) \<and> c' = c2\<lparr>index := r\<rparr>" .
qed

theorem Consume_spec_witness:
  "\<exists>c. Seek 3 (NewCommonTokenStream abcSource LexerDefaultTokenChannel) = Some (Return () c) \<and>
     index c = 3 \<and> isEOF (tokens c ! 3) \<and> eofLast c \<and>
     Consume c = Some (Panic CannotConsumeEOF c) \<and>
     (\<exists>c'. Consume (NewCommonTokenStream abcSource LexerDefaultTokenChannel) = Some (Return () c') \<and>
        index c' = 1 \<and> Size c' = 2)"
proof -
  obtain c where s: "Seek 3 (NewCommonTokenStream abcSource LexerDefaultTokenChannel) = Some (Return () c)"
    and c: "c = \<lparr>tokenSource = sconst eofToken,
      tokens = [(lexerToken 1 LexerDefaultTokenChannel ''a'')\<lparr>GetTokenIndex := 0\<rparr>,
        (lexerToken 1 LexerDefaultTokenChannel ''b'')\<lparr>GetTokenIndex := 1\<rparr>,
        (lexerToken 1 LexerDefaultTokenChannel ''c'')\<lparr>GetTokenIndex := 2\<rparr>,
        eofToken\<lparr>GetTokenIndex := 3\<rparr>],
      index = 3, fetchedEOF = True, channel = LexerDefaultTokenChannel\<rparr>"
    by (simp add: Seek_def example_defs run_defs)
  have e: "eofLast c"
    by (simp add: c eofLast_def isEOF_def eofToken_def lexerToken_def TokenEOF_def)
  have i: "0 \<le> index c \<and> index c < Size c \<and> isEOF (tokens c ! nat (index c))"
    by (simp add: c Size_def isEOF_def eofToken_def lexerToken_def)
  from Consume_spec [OF e, of c] i have "Consume c = Some (Panic CannotConsumeEOF c)" by blast
  moreover have "index c = 3" "isEOF (tokens c ! 3)"
    by (simp_all add: c isEOF_def eofToken_def lexerToken_def)
  moreover have "\<exists>c'. Consume (NewCommonTokenStream abcSource LexerDefaultTokenChannel)
      = Some (Return () c') \<and> index c' = 1 \<and> Size c' = 2"
    by (simp add: Consume_def LA_def LT_def LT_loop.simps example_defs run_defs)
  ultimately show ?thesis using s e by blast
qed

section \<open>Fill is idempotent\<close>

text \<open>
  C9. From every stream state: if \<^verbatim>\<open>Fill\<close> returns, leaving the state \<open>c1\<close>, then a second
  \<^verbatim>\<open>Fill\<close> returns and leaves \<open>c1\<close> again, so buffer, source, flag and cursor are those of a
  single call. And \<^verbatim>\<open>Fill\<close> does return whenever flag and buffer agree and the source
  produces an end-of-stream token.
\<close>

theorem Fill_idempotent:
  "(Fill c = Some (Return () c1) \<longrightarrow> Fill c1 = Some (Return () c1)) \<and>
   (eofLast c \<and> exhaustsWithin m c \<longrightarrow> (\<exists>c2. Fill c = Some (Return () c2)))"
proof (intro conjI impI)
  assume a: "Fill c = Some (Return () c1)"
  from FillD [OF a] obtain c0 where li: "lazyInit c = Some (Return () c0)"
    and fl: "fill_loop c0 = Some c1" by blast
  from fill_loop_result [OF fl] have f1: "fetchedEOF c1" and ix: "index c1 = index c0"
    and fr: "fetchedEOF c0 \<longrightarrow> c1 = c0" by simp_all
  from fill_loop_extends [OF fl] have pre: "prefix (tokens c0) (tokens c1)"
    and ch: "channel c1 = channel c0" by (simp_all add: extends_def)
  have "lazyInit c1 = Some (Return () c1)"
  proof (cases "index c1 = - 1")
    case False
    then show ?thesis by (rule lazyInit_done)
  next
    case True
    with ix have i0: "index c0 = - 1" by simp
    have ic: "index c = - 1"
    proof (rule ccontr)
      assume "index c \<noteq> - 1"
      with li i0 show False by (simp add: lazyInit_def)
    qed
    let ?cs = "snd (Sync 0 c)"
    from li ic obtain r c2 where run: "NextTokenOnChannel 0 (channel ?cs) ?cs = Some (Return r c2)"
      and c0: "c0 = c2\<lparr>index := r\<rparr>"
      by (auto simp: lazyInit_def setupStream_def adjustSeekIndex_def Let_def
          dest!: bnd_ReturnD)
    from c0 i0 have r: "r = - 1" by simp
    have chs: "channel c1 = channel ?cs"
      using NextTokenOnChannel_grows [of ?cs 0 "channel ?cs"] run ch c0
      by (simp add: extends_def)
    have "NextTokenOnChannel 0 (channel c1) c1 = Some (Return (- 1) c1)"
    proof (rule NextTokenOnChannel_rescan [OF run [unfolded r] _ chs f1])
      show "prefix (tokens c2) (tokens c1)" using pre c0 by simp
      show "fetchedEOF c2 \<longrightarrow> tokens c1 = tokens c2" using fr c0 by auto
    qed
    with True Sync_fetched [OF f1, of 0] show ?thesis
      by (simp add: lazyInit_def setupStream_def adjustSeekIndex_def Let_def bnd_def)
  qed
  with fill_loop_fetched [OF f1] show "Fill c1 = Some (Return () c1)"
    by (simp add: Fill_def bnd_def)
next
  assume "eofLast c \<and> exhaustsWithin m c"
  then show "\<exists>c2. Fill c = Some (Return () c2)" using Fill_total [of c m] by simp
qed

theorem Fill_idempotent_witness:
  "\<exists>c1. Fill (NewCommonTokenStream hiddenSource 1) = Some (Return () c1) \<and>
     Fill c1 = Some (Return () c1) \<and> Size c1 = 5 \<and> Index c1 = 1"
proof -
  let ?c = "NewCommonTokenStream hiddenSource 1"
  have e: "eofLast ?c \<and> exhaustsWithin 5 ?c"
    by (simp add: eofLast_def exhaustsWithin_def isEOF_def eval_nat_numeral example_defs)
  with Fill_idempotent [of ?c _ 5] obtain c1 where f: "Fill ?c = Some (Return () c1)" by blast
  with Fill_idempotent [of ?c c1] have "Fill c1 = Some (Return () c1)" by blast
  moreover from f have "Size c1 = 5 \<and> Index c1 = 1"
    by (auto simp: Fill_def fill_loop.simps Index_def example_defs run_defs)
  ultimately show ?thesis using f by blast
qed

section \<open>Rebinding the source\<close>

text \<open>
  C10. \<^verbatim>\<open>SetTokenSource\<close> installs the new source, empties the buffer and sets the cursor to
  \<open>-1\<close>; the flag \<^verbatim>\<open>fetchedEOF\<close> and the channel stay as they were. If the flag was set, then
  in every state reached from the rebound stream by any sequence of calls (\<^verbatim>\<open>fetch\<close>,
  \<^verbatim>\<open>Sync\<close>, \<^verbatim>\<open>Fill\<close>, seeking, consuming, lookahead and the queries) the buffer is still
  empty and the new source untouched, and every \<^verbatim>\<open>fetch(n)\<close> there returns 0 and changes
  nothing.
\<close>

theorem SetTokenSource_keeps_fetchedEOF:
  "tokenSource (SetTokenSource src c) = src \<and> tokens (SetTokenSource src c) = [] \<and>
   index (SetTokenSource src c) = - 1 \<and> fetchedEOF (SetTokenSource src c) = fetchedEOF c \<and>
   channel (SetTokenSource src c) = channel c \<and>
   (fetchedEOF c \<and> performAll xs (SetTokenSource src c) = Some c' \<longrightarrow>
      tokens c' = [] \<and> tokenSource c' = src \<and> fetch n c' = (0, c'))"
proof -
  have "tokens c' = [] \<and> tokenSource c' = src \<and> fetch n c' = (0, c')"
    if f: "fetchedEOF c" and p: "performAll xs (SetTokenSource src c) = Some c'"
  proof -
    have "fetchedEOF (SetTokenSource src c)" using f by (simp add: SetTokenSource_def)
    with performAll_extends [OF p]
    have "fetchedEOF c'" and "tokens c' = tokens (SetTokenSource src c)"
      and "tokenSource c' = tokenSource (SetTokenSource src c)"
      by (simp_all add: extends_def)
    then show ?thesis by (simp add: SetTokenSource_def fetch_def)
  qed
  then show ?thesis by (simp add: SetTokenSource_def)
qed

theorem SetTokenSource_keeps_fetchedEOF_witness:
  "\<exists>c c'. Fill (NewCommonTokenStream abcSource 0) = Some (Return () c) \<and> fetchedEOF c \<and>
     performAll [OpFetch 3, OpSeek 0, OpFill] (SetTokenSource hiddenSource c) = Some c' \<and>
     tokens c' = [] \<and> tokenSource c' = hiddenSource \<and> fetch 2 c' = (0, c')"
proof -
  obtain c where h: "Fill (NewCommonTokenStream abcSource 0) = Some (Return () c)"
    and f: "fetchedEOF c"
    by (simp add: Fill_def fill_loop.simps example_defs run_defs)
  have "\<exists>c'. performAll [OpFetch 3, OpSeek 0, OpFill] (SetTokenSource hiddenSource c) = Some c'"
    using f by (simp add: SetTokenSource_def after_def Seek_def Fill_def fill_loop.simps run_defs)
  then obtain c' where p: "performAll [OpFetch 3, OpSeek 0, OpFill] (SetTokenSource hiddenSource c)
      = Some c'" by blast
  from SetTokenSource_keeps_fetchedEOF [of hiddenSource c "[OpFetch 3, OpSeek 0, OpFill]" c' 2] f p
  have "tokens c' = [] \<and> tokenSource c' = hiddenSource \<and> fetch 2 c' = (0, c')" by blast
  with h f p show ?thesis by blast
qed

end
